theory Spec2Isabelle
  imports Main
begin

section \<open>The chat fan-out of \<^verbatim>\<open>main.go\<close>\<close>

text \<open>
  The code under study is the broadcast core of \<^verbatim>\<open>src/main.go\<close>:
  \<^verbatim>\<open>
  type Message struct { Username string; Message string }

  var clients = make(map[*websocket.Conn]bool)
  var broadcast = make(chan Message)

  func handleMessages() {
      for {
          msg := <-broadcast
          for client := range clients {
              if err := client.WriteJSON(msg); err != nil {
                  log.Printf(...)
                  client.Close()
                  delete(clients, client)
              }
          }
      }
  }

  // in main:
  go handleMessages()
  app.Get("/api/ws", websocket.New(func(c *websocket.Conn) {
      clients[c] = true
      defer func() { delete(clients, c); c.Close() }()
      for {
          var msg Message
          if err := c.ReadJSON(&msg); err != nil { log.Printf(...); break }
          broadcast <- msg
      }
  }))
  \<close>
  There is one goroutine running \<^verbatim>\<open>handleMessages\<close> and one goroutine per accepted
  connection. The model is an interleaving of their statements: a state holds the two
  package-level variables and the program counter of every goroutine, and an \<open>event\<close>
  is one statement of one goroutine together with what the environment (the transport,
  the Go runtime) answers. Each statement is taken as atomic here; a second, smaller
  model further down takes the operations on the map apart into their beginning and their
  end, to see whether they can overlap.
\<close>

subsection \<open>Data\<close>

text \<open>A connection is a \<^verbatim>\<open>*websocket.Conn\<close>; only its identity matters.\<close>

type_synonym conn = nat

record Message =
  Username :: string
  Message :: string

text \<open>\<^verbatim>\<open>clients\<close>: a Go map; \<^verbatim>\<open>delete\<close> is the builtin, which does nothing on an
  absent key and returns nothing.\<close>

type_synonym registry = "conn \<rightharpoonup> bool"

definition delete :: "registry \<Rightarrow> conn \<Rightarrow> registry" where
  "delete m c = m(c := None)"

text \<open>What \<^verbatim>\<open>WriteJSON\<close> returns: \<open>nil\<close> or an error.\<close>

datatype write_result = WriteOk | WriteErr

text \<open>Where a connection's handler goroutine stands: inside \<^verbatim>\<open>c.ReadJSON\<close>, blocked
  in \<^verbatim>\<open>broadcast <- msg\<close> with the decoded message, or returned.\<close>

datatype handler_pc = Reading | Sending Message | Done

text \<open>Where \<^verbatim>\<open>handleMessages\<close> stands: blocked in \<^verbatim>\<open><-broadcast\<close>; at the head of the
  \<^verbatim>\<open>range\<close> loop with the keys the iteration has still to produce; or inside
  \<^verbatim>\<open>client.WriteJSON(msg)\<close> for the key just produced.\<close>

datatype loop_pc =
    Receiving
  | Ranging Message "conn list"
  | Writing Message conn "conn list"

text \<open>
  The last three fields are history, kept for stating properties; no statement reads them:
  \<open>closed\<close> are the connections \<^verbatim>\<open>Close()\<close> was called on, \<open>dequeued\<close> lists every
  message \<^verbatim>\<open>handleMessages\<close> received (its sender, the message, the keys of \<open>clients\<close>
  at that moment in iteration order), \<open>writes\<close> lists every \<^verbatim>\<open>WriteJSON\<close> call that
  returned (the index of the message in \<open>dequeued\<close>, the connection, the message, the
  result).
\<close>

type_synonym attempt = "nat \<times> conn \<times> Message \<times> write_result"

record server =
  clients :: registry
  handlers :: "conn \<rightharpoonup> handler_pc"
  loop :: loop_pc
  closed :: "conn set"
  dequeued :: "(conn \<times> Message \<times> conn list) list"
  writes :: "attempt list"

definition init :: server where
  "init = \<lparr>clients = Map.empty, handlers = Map.empty, loop = Receiving,
           closed = {}, dequeued = [], writes = []\<rparr>"

subsection \<open>The \<^verbatim>\<open>range\<close> over a map that changes\<close>

text \<open>
  Go: the iteration order is not specified; an entry removed before it is reached is not
  produced; an entry created during the iteration may be produced or skipped. \<open>pos\<close> is
  the runtime's choice for a created entry: \<open>None\<close> skips it, \<open>Some n\<close> puts it at
  place \<open>n\<close> of what is still to come.
\<close>

fun range_remove :: "conn \<Rightarrow> loop_pc \<Rightarrow> loop_pc" where
  "range_remove c Receiving = Receiving"
| "range_remove c (Ranging m p) = Ranging m (removeAll c p)"
| "range_remove c (Writing m w p) = Writing m w (removeAll c p)"

fun range_insert :: "conn \<Rightarrow> nat option \<Rightarrow> loop_pc \<Rightarrow> loop_pc" where
  "range_insert c None l = l"
| "range_insert c (Some n) Receiving = Receiving"
| "range_insert c (Some n) (Ranging m p) = Ranging m (take n p @ c # drop n p)"
| "range_insert c (Some n) (Writing m w p) = Writing m w (take n p @ c # drop n p)"

subsection \<open>The statements\<close>

datatype event =
    Accept conn "nat option"
  | ReadOk conn Message
  | ReadErr conn
  | Send conn "conn list"
  | RangeNext
  | WriteRet write_result

text \<open>The handler starts on a new connection: \<^verbatim>\<open>clients[c] = true\<close>, then the first
  \<^verbatim>\<open>ReadJSON\<close>. A new connection is a new pointer.\<close>

definition ws_accept :: "conn \<Rightarrow> nat option \<Rightarrow> server \<Rightarrow> server option" where
  "ws_accept c pos s =
     (if c \<in> dom (handlers s) then None
      else Some (s\<lparr>clients := (clients s)(c \<mapsto> True),
                   handlers := (handlers s)(c \<mapsto> Reading),
                   loop := range_insert c pos (loop s)\<rparr>))"

text \<open>\<^verbatim>\<open>c.ReadJSON(&msg)\<close> returns \<open>nil\<close>: the handler goes on to \<^verbatim>\<open>broadcast <- msg\<close>.\<close>

definition ws_read_ok :: "conn \<Rightarrow> Message \<Rightarrow> server \<Rightarrow> server option" where
  "ws_read_ok c m s =
     (if handlers s c = Some Reading
      then Some (s\<lparr>handlers := (handlers s)(c \<mapsto> Sending m)\<rparr>)
      else None)"

text \<open>\<^verbatim>\<open>c.ReadJSON(&msg)\<close> returns an error: \<^verbatim>\<open>break\<close>, and the deferred function runs
  \<^verbatim>\<open>delete(clients, c); c.Close()\<close>; the handler returns.\<close>

definition ws_read_err :: "conn \<Rightarrow> server \<Rightarrow> server option" where
  "ws_read_err c s =
     (if handlers s c = Some Reading
      then Some (s\<lparr>clients := delete (clients s) c,
                   closed := insert c (closed s),
                   handlers := (handlers s)(c \<mapsto> Done),
                   loop := range_remove c (loop s)\<rparr>)
      else None)"

text \<open>
  \<^verbatim>\<open>broadcast\<close> is made with no capacity, so \<^verbatim>\<open>broadcast <- msg\<close> and
  \<^verbatim>\<open>msg := <-broadcast\<close> complete together, when a handler stands at the one and
  \<^verbatim>\<open>handleMessages\<close> at the other. The \<^verbatim>\<open>range\<close> then starts over the keys of
  \<open>clients\<close>, in an order \<open>order\<close> of the runtime's choice.
\<close>

definition broadcast :: "conn \<Rightarrow> conn list \<Rightarrow> server \<Rightarrow> server option" where
  "broadcast c order s =
     (case handlers s c of
        Some (Sending m) \<Rightarrow>
          (if loop s = Receiving \<and> distinct order \<and> set order = dom (clients s)
           then Some (s\<lparr>handlers := (handlers s)(c \<mapsto> Reading),
                        loop := Ranging m order,
                        dequeued := dequeued s @ [(c, m, order)]\<rparr>)
           else None)
      | _ \<Rightarrow> None)"

text \<open>The \<^verbatim>\<open>range\<close> produces its next key and \<^verbatim>\<open>WriteJSON\<close> is called on it; with no
  key left the outer \<^verbatim>\<open>for\<close> goes back to \<^verbatim>\<open><-broadcast\<close>.\<close>

definition handleMessages_next :: "server \<Rightarrow> server option" where
  "handleMessages_next s =
     (case loop s of
        Ranging m [] \<Rightarrow> Some (s\<lparr>loop := Receiving\<rparr>)
      | Ranging m (c # rest) \<Rightarrow> Some (s\<lparr>loop := Writing m c rest\<rparr>)
      | _ \<Rightarrow> None)"

text \<open>\<^verbatim>\<open>client.WriteJSON(msg)\<close> returns. On an error: \<^verbatim>\<open>client.Close()\<close>,
  \<^verbatim>\<open>delete(clients, client)\<close>. Either way the \<^verbatim>\<open>range\<close> goes on.\<close>

definition handleMessages_write :: "write_result \<Rightarrow> server \<Rightarrow> server option" where
  "handleMessages_write r s =
     (case loop s of
        Writing m c rest \<Rightarrow>
          (let s1 = s\<lparr>writes := writes s @ [(length (dequeued s) - 1, c, m, r)]\<rparr>
           in case r of
                WriteOk \<Rightarrow> Some (s1\<lparr>loop := Ranging m rest\<rparr>)
              | WriteErr \<Rightarrow> Some (s1\<lparr>closed := insert c (closed s),
                                      clients := delete (clients s) c,
                                      loop := Ranging m rest\<rparr>))
      | _ \<Rightarrow> None)"

fun step :: "event \<Rightarrow> server \<Rightarrow> server option" where
  "step (Accept c pos) s = ws_accept c pos s"
| "step (ReadOk c m) s = ws_read_ok c m s"
| "step (ReadErr c) s = ws_read_err c s"
| "step (Send c order) s = broadcast c order s"
| "step RangeNext s = handleMessages_next s"
| "step (WriteRet r) s = handleMessages_write r s"

text \<open>A schedule is a list of events; \<open>None\<close> when an event is not possible where it
  stands.\<close>

fun run :: "event list \<Rightarrow> server \<Rightarrow> server option" where
  "run [] s = Some s"
| "run (e # es) s = (case step e s of None \<Rightarrow> None | Some s' \<Rightarrow> run es s')"

subsection \<open>Observations\<close>

text \<open>What the \<^verbatim>\<open>range\<close> has still to produce, the connection whose \<^verbatim>\<open>WriteJSON\<close> is
  running, and the message \<^verbatim>\<open>msg\<close> of the current iteration of the outer loop.\<close>

fun pending :: "loop_pc \<Rightarrow> conn list" where
  "pending Receiving = []"
| "pending (Ranging m p) = p"
| "pending (Writing m w p) = p"

fun writing :: "loop_pc \<Rightarrow> conn option" where
  "writing (Writing m w p) = Some w"
| "writing _ = None"

fun carried :: "loop_pc \<Rightarrow> Message option" where
  "carried Receiving = None"
| "carried (Ranging m p) = Some m"
| "carried (Writing m w p) = Some m"

text \<open>The \<open>k\<close>-th message \<^verbatim>\<open>handleMessages\<close> received: who sent it, what it is, and the
  keys of \<open>clients\<close> at that moment.\<close>

definition sender :: "server \<Rightarrow> nat \<Rightarrow> conn" where
  "sender s k = fst (dequeued s ! k)"

definition message :: "server \<Rightarrow> nat \<Rightarrow> Message" where
  "message s k = fst (snd (dequeued s ! k))"

definition snapshot :: "server \<Rightarrow> nat \<Rightarrow> conn list" where
  "snapshot s k = snd (snd (dequeued s ! k))"

text \<open>The \<^verbatim>\<open>range\<close> for the \<open>k\<close>-th message has ended: \<^verbatim>\<open>handleMessages\<close> is back at
  \<^verbatim>\<open><-broadcast\<close>, or has received a later message.\<close>

definition finished :: "server \<Rightarrow> nat \<Rightarrow> bool" where
  "finished s k = (k < length (dequeued s) \<and> (loop s = Receiving \<or> Suc k < length (dequeued s)))"

text \<open>The parts of an entry of \<open>writes\<close>, and the entries for message \<open>k\<close> on connection
  \<open>c\<close>.\<close>

definition seq_no :: "attempt \<Rightarrow> nat" where
  "seq_no a = fst a"

definition target :: "attempt \<Rightarrow> conn" where
  "target a = fst (snd a)"

definition payload :: "attempt \<Rightarrow> Message" where
  "payload a = fst (snd (snd a))"

definition result :: "attempt \<Rightarrow> write_result" where
  "result a = snd (snd (snd a))"

definition deliveries :: "server \<Rightarrow> nat \<Rightarrow> conn \<Rightarrow> attempt list" where
  "deliveries s k c = filter (\<lambda>a. seq_no a = k \<and> target a = c) (writes s)"

subsection \<open>Invariants\<close>

text \<open>While a \<^verbatim>\<open>range\<close> runs, \<^verbatim>\<open>msg\<close> is the last message dequeued; the keys still to
  come are distinct keys of \<open>clients\<close>, and the connection being written is not among
  them.\<close>

definition inv_loop :: "server \<Rightarrow> bool" where
  "inv_loop s =
    ((loop s \<noteq> Receiving \<longrightarrow>
        dequeued s \<noteq> [] \<and> carried (loop s) = Some (message s (length (dequeued s) - 1)))
     \<and> distinct (pending (loop s)) \<and> set (pending (loop s)) \<subseteq> dom (clients s)
     \<and> (\<forall>c. writing (loop s) = Some c \<longrightarrow> c \<notin> set (pending (loop s))))"

text \<open>Every connection the state mentions belongs to a handler that has started.\<close>

definition inv_known :: "server \<Rightarrow> bool" where
  "inv_known s = (dom (clients s) \<subseteq> dom (handlers s)
     \<and> (\<forall>c. writing (loop s) = Some c \<longrightarrow> c \<in> dom (handlers s))
     \<and> (\<forall>d \<in> set (dequeued s). set (snd (snd d)) \<subseteq> dom (handlers s))
     \<and> (\<forall>a \<in> set (writes s). target a \<in> dom (handlers s)))"

text \<open>Every write that returned carried the message dequeued under its index; a
  connection whose write failed is out of \<open>clients\<close>; a connection written for the current
  message is neither still to come nor being written; no connection is written twice for one
  message; the indices in \<open>writes\<close> never decrease.\<close>

definition inv_writes :: "server \<Rightarrow> bool" where
  "inv_writes s = ((\<forall>a \<in> set (writes s). seq_no a < length (dequeued s)
         \<and> payload a = message s (seq_no a)
         \<and> (result a = WriteErr \<longrightarrow> target a \<notin> dom (clients s))
         \<and> (Suc (seq_no a) = length (dequeued s) \<longrightarrow>
              target a \<notin> set (pending (loop s)) \<and> writing (loop s) \<noteq> Some (target a)))
     \<and> distinct (map (\<lambda>a. (seq_no a, target a)) (writes s))
     \<and> sorted (map seq_no (writes s)))"

text \<open>A connection that was a key of \<open>clients\<close> when message \<open>k\<close> was dequeued and is
  one still has been written \<open>k\<close> with success, or \<open>k\<close> is the current message and the
  connection is still to come or is being written.\<close>

definition inv_deliv :: "server \<Rightarrow> bool" where
  "inv_deliv s = (\<forall>k < length (dequeued s). \<forall>c \<in> set (snapshot s k). c \<in> dom (clients s) \<longrightarrow>
      (k, c, message s k, WriteOk) \<in> set (writes s)
      \<or> (Suc k = length (dequeued s) \<and> (c \<in> set (pending (loop s)) \<or> writing (loop s) = Some c)))"

subsection \<open>What a handler decoded and what a connection was written\<close>

text \<open>The messages a handler's \<^verbatim>\<open>ReadJSON\<close> returned along a schedule, in order; the
  messages \<^verbatim>\<open>handleMessages\<close> received from a handler, in order; the message a handler
  holds at its send; the \<^verbatim>\<open>WriteJSON\<close> calls on one connection that returned, in order.\<close>

fun decoded :: "conn \<Rightarrow> event list \<Rightarrow> Message list" where
  "decoded h [] = []"
| "decoded h (ReadOk c m # es) = (if c = h then m # decoded h es else decoded h es)"
| "decoded h (e # es) = decoded h es"

definition sent_by :: "server \<Rightarrow> conn \<Rightarrow> Message list" where
  "sent_by s h = map (\<lambda>d. fst (snd d)) (filter (\<lambda>d. fst d = h) (dequeued s))"

fun in_hand :: "handler_pc option \<Rightarrow> Message list" where
  "in_hand (Some (Sending m)) = [m]"
| "in_hand _ = []"

definition written_to :: "server \<Rightarrow> conn \<Rightarrow> attempt list" where
  "written_to s c = filter (\<lambda>a. target a = c) (writes s)"

text \<open>A handler that has started, has not returned and whose connection was not closed
  has its connection in \<open>clients\<close>.\<close>

definition inv_active :: "server \<Rightarrow> bool" where
  "inv_active s = (\<forall>c. handlers s c \<noteq> None \<and> handlers s c \<noteq> Some Done \<and> c \<notin> closed s
      \<longrightarrow> c \<in> dom (clients s))"

text \<open>Everything that holds in every state a schedule can reach.\<close>

definition inv :: "server \<Rightarrow> bool" where
  "inv s = (inv_loop s \<and> inv_known s \<and> inv_writes s \<and> inv_deliv s)"

subsection \<open>Schedules used below\<close>

text \<open>\<^verbatim>\<open>handleMessages\<close> running one \<^verbatim>\<open>range\<close> to its end with no other goroutine in
  between, the \<^verbatim>\<open>WriteJSON\<close> calls returning \<open>rs\<close> in turn.\<close>

fun fan_out :: "write_result list \<Rightarrow> event list" where
  "fan_out [] = [RangeNext]"
| "fan_out (r # rs) = RangeNext # WriteRet r # fan_out rs"

definition alice_hi :: Message where
  "alice_hi = \<lparr>Username = ''alice'', Message = ''hi''\<rparr>"

definition bob_hello :: Message where
  "bob_hello = \<lparr>Username = ''bob'', Message = ''hello''\<rparr>"


text \<open>Two connections, the first sends two messages one after the other; the second only
  listens.\<close>

definition two_messages :: "event list" where
  "two_messages = [Accept 1 None, Accept 2 None, ReadOk 1 alice_hi, Send 1 [2, 1]]
      @ fan_out [WriteOk, WriteOk] @ [ReadOk 1 bob_hello, Send 1 [2, 1]] @ fan_out [WriteOk, WriteOk]"

text \<open>Two connections, the first sends; the write to the second fails.\<close>

definition broken_peer :: "event list" where
  "broken_peer = [Accept 1 None, Accept 2 None, ReadOk 1 alice_hi, Send 1 [2, 1]]
      @ fan_out [WriteErr, WriteOk]"

text \<open>Two connections, the first sends; while the first is being written, the second's
  handler fails to read and leaves.\<close>

definition leaving_peer :: "event list" where
  "leaving_peer = [Accept 2 None, Accept 1 None, ReadOk 1 alice_hi, Send 1 [1, 2], RangeNext,
      ReadErr 2, WriteRet WriteOk, RangeNext]"

section \<open>The operations on \<^verbatim>\<open>clients\<close>, entered and left\<close>

text \<open>
  The statements above are taken one at a time. Whether the operations on the map
  can overlap is a separate question, and this second model is made for it. It keeps only
  the accesses to \<^verbatim>\<open>clients\<close>, and gives each a beginning and an end:
  \<^item> a handler's \<^verbatim>\<open>clients[c] = true\<close> (line 276) and its deferred
    \<^verbatim>\<open>delete(clients, c)\<close> (line 278);
  \<^item> the \<^verbatim>\<open>for client := range clients\<close> of \<^verbatim>\<open>handleMessages\<close> (line 233), which lasts
    for the whole inner loop, and the \<^verbatim>\<open>delete(clients, client)\<close> inside it (line 237).
  The source takes no lock at any of the four places, so entering an operation depends on
  where the goroutine itself stands and on nothing else. The map changes when the
  operation is left. Messages and writes are left out: the range may start at any time,
  and any write may fail, on any key.
\<close>

datatype task = Handler conn | FanOut

datatype access = Insert conn | Delete conn | Iterate

text \<open>Where a handler stands: inside its insert, between insert and delete (the read
  loop), inside its delete, or returned. Where \<^verbatim>\<open>handleMessages\<close> stands: outside the
  \<^verbatim>\<open>range\<close>, inside it, or inside a \<^verbatim>\<open>delete\<close> inside it.\<close>

datatype handler_at = Inserting | Registered | Deleting | Returned

datatype loop_at = Waiting | InRange | InDelete conn

record accesses =
  reg :: registry
  h_at :: "conn \<rightharpoonup> handler_at"
  l_at :: loop_at

definition idle :: accesses where
  "idle = \<lparr>reg = Map.empty, h_at = Map.empty, l_at = Waiting\<rparr>"

datatype access_event = Enter task access | Leave task access

fun access_step :: "access_event \<Rightarrow> accesses \<Rightarrow> accesses option" where
  "access_step (Enter (Handler c) (Insert k)) s =
     (if k = c \<and> h_at s c = None then Some (s\<lparr>h_at := (h_at s)(c \<mapsto> Inserting)\<rparr>) else None)"
| "access_step (Leave (Handler c) (Insert k)) s =
     (if k = c \<and> h_at s c = Some Inserting
      then Some (s\<lparr>reg := (reg s)(c \<mapsto> True), h_at := (h_at s)(c \<mapsto> Registered)\<rparr>) else None)"
| "access_step (Enter (Handler c) (Delete k)) s =
     (if k = c \<and> h_at s c = Some Registered then Some (s\<lparr>h_at := (h_at s)(c \<mapsto> Deleting)\<rparr>) else None)"
| "access_step (Leave (Handler c) (Delete k)) s =
     (if k = c \<and> h_at s c = Some Deleting
      then Some (s\<lparr>reg := delete (reg s) c, h_at := (h_at s)(c \<mapsto> Returned)\<rparr>) else None)"
| "access_step (Enter FanOut Iterate) s =
     (if l_at s = Waiting then Some (s\<lparr>l_at := InRange\<rparr>) else None)"
| "access_step (Leave FanOut Iterate) s =
     (if l_at s = InRange then Some (s\<lparr>l_at := Waiting\<rparr>) else None)"
| "access_step (Enter FanOut (Delete k)) s =
     (if l_at s = InRange then Some (s\<lparr>l_at := InDelete k\<rparr>) else None)"
| "access_step (Leave FanOut (Delete k)) s =
     (if l_at s = InDelete k then Some (s\<lparr>reg := delete (reg s) k, l_at := InRange\<rparr>) else None)"
| "access_step _ s = None"

fun access_run :: "access_event list \<Rightarrow> accesses \<Rightarrow> accesses option" where
  "access_run [] s = Some s"
| "access_run (e # es) s = (case access_step e s of None \<Rightarrow> None | Some s' \<Rightarrow> access_run es s')"

text \<open>The operations a goroutine has entered and not left.\<close>

fun inside :: "accesses \<Rightarrow> task \<Rightarrow> access list" where
  "inside s (Handler c) =
     (case h_at s c of Some Inserting \<Rightarrow> [Insert c] | Some Deleting \<Rightarrow> [Delete c] | _ \<Rightarrow> [])"
| "inside s FanOut =
     (case l_at s of Waiting \<Rightarrow> [] | InRange \<Rightarrow> [Iterate] | InDelete k \<Rightarrow> [Iterate, Delete k])"

text \<open>Every handler of \<open>cs\<close> enters its insert, none leaves.\<close>

definition all_insert :: "conn list \<Rightarrow> access_event list" where
  "all_insert cs = map (\<lambda>c. Enter (Handler c) (Insert c)) cs"

section \<open>Invariants of the interleaving\<close>

lemma stepE:
  assumes "step e s = Some s'"
  obtains
    (Accept) c pos where "e = Accept c pos" "c \<notin> dom (handlers s)"
      "s' = s\<lparr>clients := (clients s)(c \<mapsto> True), handlers := (handlers s)(c \<mapsto> Reading),
               loop := range_insert c pos (loop s)\<rparr>"
  | (ReadOk) c m where "e = ReadOk c m" "handlers s c = Some Reading"
      "s' = s\<lparr>handlers := (handlers s)(c \<mapsto> Sending m)\<rparr>"
  | (ReadErr) c where "e = ReadErr c" "handlers s c = Some Reading"
      "s' = s\<lparr>clients := delete (clients s) c, closed := insert c (closed s),
               handlers := (handlers s)(c \<mapsto> Done), loop := range_remove c (loop s)\<rparr>"
  | (Send) c order m where "e = Send c order" "handlers s c = Some (Sending m)"
      "loop s = Receiving" "distinct order" "set order = dom (clients s)"
      "s' = s\<lparr>handlers := (handlers s)(c \<mapsto> Reading), loop := Ranging m order,
               dequeued := dequeued s @ [(c, m, order)]\<rparr>"
  | (Back) m where "e = RangeNext" "loop s = Ranging m []" "s' = s\<lparr>loop := Receiving\<rparr>"
  | (Next) m c rest where "e = RangeNext" "loop s = Ranging m (c # rest)"
      "s' = s\<lparr>loop := Writing m c rest\<rparr>"
  | (Ok) m c rest where "e = WriteRet WriteOk" "loop s = Writing m c rest"
      "s' = s\<lparr>writes := writes s @ [(length (dequeued s) - 1, c, m, WriteOk)],
               loop := Ranging m rest\<rparr>"
  | (Err) m c rest where "e = WriteRet WriteErr" "loop s = Writing m c rest"
      "s' = s\<lparr>writes := writes s @ [(length (dequeued s) - 1, c, m, WriteErr)],
               closed := insert c (closed s), clients := delete (clients s) c,
               loop := Ranging m rest\<rparr>"
proof (cases e)
  case (Accept c pos)
  with assms that(1) show ?thesis by (auto simp: ws_accept_def split: if_splits)
next
  case (ReadOk c m)
  with assms that(2) show ?thesis by (auto simp: ws_read_ok_def split: if_splits)
next
  case (ReadErr c)
  with assms that(3) show ?thesis by (auto simp: ws_read_err_def split: if_splits)
next
  case (Send c order)
  with assms that(4) show ?thesis
    by (auto simp: broadcast_def split: option.splits handler_pc.splits if_splits)
next
  case RangeNext
  with assms that(5,6) show ?thesis
    by (auto simp: handleMessages_next_def split: loop_pc.splits list.splits)
next
  case (WriteRet r)
  with assms that(7,8) show ?thesis
    by (cases r) (auto simp: handleMessages_write_def Let_def split: loop_pc.splits)
qed

lemmas obs_defs = sender_def message_def snapshot_def seq_no_def target_def payload_def result_def

lemma range_remove_simps [simp]:
  "pending (range_remove c l) = removeAll c (pending l)"
  "writing (range_remove c l) = writing l"
  "carried (range_remove c l) = carried l"
  "(range_remove c l = Receiving) = (l = Receiving)"
  by (cases l; simp)+

lemma range_insert_simps [simp]:
  "writing (range_insert c pos l) = writing l"
  "carried (range_insert c pos l) = carried l"
  "(range_insert c pos l = Receiving) = (l = Receiving)"
  by (cases l; cases pos; simp)+

lemma set_take_drop: "x \<in> set xs \<Longrightarrow> x \<notin> set (take n xs) \<Longrightarrow> x \<in> set (drop n xs)"
  by (metis Un_iff append_take_drop_id set_append)

lemma distinct_take_drop: "distinct xs \<Longrightarrow> x \<in> set (take n xs) \<Longrightarrow> x \<in> set (drop n xs) \<Longrightarrow> False"
  by (metis append_take_drop_id distinct_append disjoint_iff)

lemma set_pending_insert:
  "set (pending (range_insert c pos l)) \<subseteq> insert c (set (pending l))"
  "set (pending l) \<subseteq> set (pending (range_insert c pos l))"
  by (cases l; cases pos; auto dest: in_set_takeD in_set_dropD set_take_drop)+

lemma distinct_pending_insert:
  "distinct (pending l) \<Longrightarrow> c \<notin> set (pending l) \<Longrightarrow> distinct (pending (range_insert c pos l))"
  by (cases l; cases pos; auto dest: in_set_takeD in_set_dropD distinct_take_drop)

lemma inv_loop_step:
  assumes "inv_known s" "inv_loop s" "step e s = Some s'"
  shows "inv_loop s'"
  using assms(3)
proof (cases rule: stepE)
  case (Accept c pos)
  have "c \<notin> set (pending (loop s))" using assms(1,2) Accept(2) unfolding inv_known_def inv_loop_def by blast
  then show ?thesis using assms(1,2) Accept set_pending_insert[where c=c and pos=pos and l="loop s"] distinct_pending_insert[of "loop s" c pos]
    by (auto simp: inv_loop_def inv_known_def obs_defs)
next
  case (ReadOk c m)
  then show ?thesis using assms(2) by (auto simp: inv_loop_def obs_defs)
next
  case (ReadErr c)
  then show ?thesis using assms(2) by (auto simp: inv_loop_def obs_defs delete_def distinct_removeAll)
next
  case (Send c order m)
  then show ?thesis using assms(2) by (auto simp: inv_loop_def obs_defs)
next
  case (Back m)
  then show ?thesis using assms(2) by (auto simp: inv_loop_def obs_defs)
next
  case (Next m c rest)
  then show ?thesis using assms(2) by (auto simp: inv_loop_def obs_defs)
next
  case (Ok m c rest)
  then show ?thesis using assms(2) by (auto simp: inv_loop_def obs_defs)
next
  case (Err m c rest)
  then show ?thesis using assms(2) by (auto simp: inv_loop_def obs_defs delete_def)
qed

lemma inv_known_step:
  assumes "inv_loop s" "inv_known s" "step e s = Some s'"
  shows "inv_known s'"
  using assms(3)
proof (cases rule: stepE)
  case (Accept c pos)
  then show ?thesis using assms(2) by (auto simp: inv_known_def obs_defs)
next
  case (ReadOk c m)
  then show ?thesis using assms(2) by (auto simp: inv_known_def obs_defs)
next
  case (ReadErr c)
  then show ?thesis using assms(2) by (auto simp: inv_known_def obs_defs delete_def)
next
  case (Send c order m)
  then show ?thesis using assms(2) by (auto simp: inv_known_def obs_defs)
next
  case (Back m)
  then show ?thesis using assms(2) by (auto simp: inv_known_def obs_defs)
next
  case (Next m c rest)
  then show ?thesis using assms(1,2) by (auto simp: inv_known_def inv_loop_def obs_defs)
next
  case (Ok m c rest)
  then show ?thesis using assms(2) by (auto simp: inv_known_def obs_defs)
next
  case (Err m c rest)
  then show ?thesis using assms(2) by (auto simp: inv_known_def obs_defs delete_def)
qed

lemma inv_writes_step:
  assumes "inv_loop s" "inv_known s" "inv_writes s" "step e s = Some s'"
  shows "inv_writes s'"
  using assms(4)
proof (cases rule: stepE)
  case (Accept c pos)
  have "\<forall>a \<in> set (writes s). target a \<noteq> c" using assms(2) Accept(2) unfolding inv_known_def by blast
  then show ?thesis using assms(3) Accept set_pending_insert[where c=c and pos=pos and l="loop s"]
    unfolding inv_writes_def by (simp add: message_def) blast
next
  case (ReadOk c m)
  then show ?thesis using assms(3) by (simp add: inv_writes_def message_def)
next
  case (ReadErr c)
  then show ?thesis using assms(3) by (simp add: inv_writes_def message_def delete_def)
next
  case (Send c order m)
  then show ?thesis using assms(3) by (auto simp: inv_writes_def message_def nth_append)
next
  case (Back m)
  then show ?thesis using assms(3) by (simp add: inv_writes_def message_def)
next
  case (Next m c rest)
  then show ?thesis using assms(3) by (auto simp: inv_writes_def message_def)
next
  case (Ok m c rest)
  define n where "n = length (dequeued s) - 1"
  have n: "Suc n = length (dequeued s)" and m: "m = message s n" and c: "c \<notin> set rest"
    using assms(1) Ok(2) by (auto simp: inv_loop_def n_def)
  have old: "\<forall>a \<in> set (writes s). seq_no a \<le> n \<and> (seq_no a = n \<longrightarrow> target a \<noteq> c)"
    using assms(3) Ok(2) n by (auto simp: inv_writes_def)
  have s': "s' = s\<lparr>writes := writes s @ [(n, c, m, WriteOk)], loop := Ranging m rest\<rparr>"
    using Ok(3) by (simp add: n_def)
  show ?thesis using assms(3) old n[symmetric] m c Ok(2) unfolding s' inv_writes_def
    by (auto simp: obs_defs sorted_append)
next
  case (Err m c rest)
  define n where "n = length (dequeued s) - 1"
  have n: "Suc n = length (dequeued s)" and m: "m = message s n" and c: "c \<notin> set rest"
    using assms(1) Err(2) by (auto simp: inv_loop_def n_def)
  have old: "\<forall>a \<in> set (writes s). seq_no a \<le> n \<and> (seq_no a = n \<longrightarrow> target a \<noteq> c)"
    using assms(3) Err(2) n by (auto simp: inv_writes_def)
  have s': "s' = s\<lparr>writes := writes s @ [(n, c, m, WriteErr)], closed := insert c (closed s),
               clients := delete (clients s) c, loop := Ranging m rest\<rparr>"
    using Err(3) by (simp add: n_def)
  show ?thesis using assms(3) old n[symmetric] m c Err(2) unfolding s' inv_writes_def
    by (auto simp: obs_defs sorted_append delete_def)
qed

lemma inv_deliv_Send:
  assumes "inv_deliv s" "loop s = Receiving" "set order = dom (clients s)"
  shows "inv_deliv (s\<lparr>handlers := h, loop := Ranging m order, dequeued := dequeued s @ [(c, m, order)]\<rparr>)"
  unfolding inv_deliv_def
proof (intro allI impI ballI)
  let ?s' = "s\<lparr>handlers := h, loop := Ranging m order, dequeued := dequeued s @ [(c, m, order)]\<rparr>"
  fix k x
  assume k: "k < length (dequeued ?s')" and x: "x \<in> set (snapshot ?s' k)" "x \<in> dom (clients ?s')"
  show "(k, x, message ?s' k, WriteOk) \<in> set (writes ?s') \<or>
        Suc k = length (dequeued ?s') \<and> (x \<in> set (pending (loop ?s')) \<or> writing (loop ?s') = Some x)"
  proof (cases "k < length (dequeued s)")
    case True
    then have "snapshot ?s' k = snapshot s k" "message ?s' k = message s k"
      by (simp_all add: snapshot_def message_def nth_append)
    with assms(1,2) True x show ?thesis by (auto simp: inv_deliv_def)
  next
    case False
    with k have "k = length (dequeued s)" by simp
    with x assms(3) show ?thesis by (simp add: snapshot_def)
  qed
qed

lemma inv_deliv_step:
  assumes "inv_loop s" "inv_known s" "inv_deliv s" "step e s = Some s'"
  shows "inv_deliv s'"
  using assms(4)
proof (cases rule: stepE)
  case (Accept c pos)
  have fresh: "c \<notin> set (snapshot s k)" if "k < length (dequeued s)" for k
  proof -
    from that have "dequeued s ! k \<in> set (dequeued s)" by simp
    with assms(2) have "set (snapshot s k) \<subseteq> dom (handlers s)"
      unfolding inv_known_def snapshot_def by blast
    with Accept(2) show ?thesis by blast
  qed
  have sub: "set (pending (loop s)) \<subseteq> set (pending (loop s'))" and w: "writing (loop s') = writing (loop s)"
    and d: "dequeued s' = dequeued s" "writes s' = writes s" and cl: "dom (clients s') = insert c (dom (clients s))"
    using Accept(3) set_pending_insert(2)[where c=c and pos=pos and l="loop s"] by simp_all
  show ?thesis unfolding inv_deliv_def
  proof (intro allI impI ballI)
    fix k x
    assume k: "k < length (dequeued s')" and x: "x \<in> set (snapshot s' k)" "x \<in> dom (clients s')"
    have k': "k < length (dequeued s)" using k d by simp
    have sn: "snapshot s' k = snapshot s k" "message s' k = message s k"
      using d by (simp_all add: snapshot_def message_def)
    have "x \<noteq> c" using fresh[OF k'] x(1) sn by auto
    then have "x \<in> dom (clients s)" using x(2) cl by blast
    with assms(3) k' x(1) sn have
      "(k, x, message s k, WriteOk) \<in> set (writes s) \<or>
        Suc k = length (dequeued s) \<and> (x \<in> set (pending (loop s)) \<or> writing (loop s) = Some x)"
      unfolding inv_deliv_def by simp
    then show "(k, x, message s' k, WriteOk) \<in> set (writes s') \<or>
        Suc k = length (dequeued s') \<and> (x \<in> set (pending (loop s')) \<or> writing (loop s') = Some x)"
      using sub w d sn by auto
  qed
next
  case (ReadOk c m)
  then show ?thesis using assms(3) by (simp add: inv_deliv_def message_def snapshot_def)
next
  case (ReadErr c)
  then show ?thesis using assms(3) by (simp add: inv_deliv_def message_def snapshot_def delete_def)
next
  case (Send c order m)
  then show ?thesis using assms(3) inv_deliv_Send by simp
next
  case (Back m)
  then show ?thesis using assms(3) by (simp add: inv_deliv_def message_def snapshot_def)
next
  case (Next m c rest)
  then show ?thesis using assms(3) by (simp add: inv_deliv_def message_def snapshot_def) blast
next
  case (Ok m c rest)
  define n where "n = length (dequeued s) - 1"
  have n: "Suc n = length (dequeued s)" and m: "m = message s n"
    using assms(1) Ok(2) by (auto simp: inv_loop_def n_def)
  have s': "s' = s\<lparr>writes := writes s @ [(n, c, m, WriteOk)], loop := Ranging m rest\<rparr>"
    using Ok(3) by (simp add: n_def)
  show ?thesis using assms(3) n[symmetric] m Ok(2) unfolding s' inv_deliv_def
    by (simp add: message_def snapshot_def) blast
next
  case (Err m c rest)
  then show ?thesis using assms(3) by (simp add: inv_deliv_def message_def snapshot_def delete_def) blast
qed

lemma inv_init: "inv init"
  by (simp add: inv_def inv_loop_def inv_known_def inv_writes_def inv_deliv_def init_def)

lemma inv_step: "inv s \<Longrightarrow> step e s = Some s' \<Longrightarrow> inv s'"
  unfolding inv_def using inv_loop_step inv_known_step inv_writes_step inv_deliv_step by blast

lemma inv_run: "inv s \<Longrightarrow> run es s = Some s' \<Longrightarrow> inv s'"
proof (induction es arbitrary: s)
  case Nil
  then show ?case by simp
next
  case (Cons e es)
  then show ?case by (auto split: option.splits dest: inv_step)
qed

lemma reachable_inv: "run es init = Some s \<Longrightarrow> inv s"
  using inv_run inv_init by blast

lemma run_append: "run (es @ es') s = (case run es s of None \<Rightarrow> None | Some s' \<Rightarrow> run es' s')"
  by (induction es arbitrary: s) (auto split: option.splits)

lemma run_snoc: "run (es @ [e]) s = Some s' \<Longrightarrow> \<exists>t. run es s = Some t \<and> step e t = Some s'"
  by (auto simp: run_append split: option.splits)

lemma done_step: "handlers s c = Some Done \<Longrightarrow> step e s = Some s' \<Longrightarrow> handlers s' c = Some Done"
  by (erule stepE) (auto simp: dom_def)

lemma removed_step:
  "c \<in> dom (handlers s) \<Longrightarrow> c \<notin> dom (clients s) \<Longrightarrow> step e s = Some s' \<Longrightarrow>
     c \<in> dom (handlers s') \<and> c \<notin> dom (clients s')"
  by (erule stepE) (auto simp: delete_def)

lemma done_run: "handlers s c = Some Done \<Longrightarrow> c \<notin> dom (clients s) \<Longrightarrow> run es s = Some s' \<Longrightarrow>
    handlers s' c = Some Done \<and> c \<notin> dom (clients s')"
proof (induction es arbitrary: s)
  case Nil
  then show ?case by simp
next
  case (Cons e es)
  from Cons.prems(3) obtain t where t: "step e s = Some t" "run es t = Some s'"
    by (auto split: option.splits)
  have "handlers t c = Some Done" using done_step[OF Cons.prems(1) t(1)] .
  moreover have "c \<notin> dom (clients t)" using removed_step[OF _ Cons.prems(2) t(1)] Cons.prems(1) by blast
  ultimately show ?case using Cons.IH t(2) by blast
qed

lemmas stmt_defs = ws_accept_def ws_read_ok_def ws_read_err_def broadcast_def
  handleMessages_next_def handleMessages_write_def delete_def init_def

lemma range_insert_Writing: "\<exists>rest'. range_insert c pos (Writing m w rest) = Writing m w rest'"
  by (cases pos) simp_all

lemma stall_step:
  assumes "loop s = Writing m c rest" "step e s = Some s'" "e \<noteq> WriteRet WriteOk" "e \<noteq> WriteRet WriteErr"
  shows "writes s' = writes s \<and> dequeued s' = dequeued s \<and> (\<exists>rest'. loop s' = Writing m c rest')"
  using assms(2,1,3,4)
proof (cases rule: stepE)
  case (Accept a pos)
  then show ?thesis using assms(1) range_insert_Writing[of a pos m c rest] by auto
qed auto

lemma stall_run:
  assumes "loop s = Writing m c rest" "run es s = Some s'" "WriteRet WriteOk \<notin> set es" "WriteRet WriteErr \<notin> set es"
  shows "writes s' = writes s \<and> dequeued s' = dequeued s \<and> (\<exists>rest'. loop s' = Writing m c rest')"
  using assms
proof (induction es arbitrary: s rest)
  case Nil
  then show ?case by simp
next
  case (Cons e es)
  from Cons.prems(2) obtain t where t: "step e s = Some t" "run es t = Some s'"
    by (auto split: option.splits)
  from stall_step[OF Cons.prems(1) t(1)] Cons.prems(3,4) obtain rest' where
    r: "writes t = writes s" "dequeued t = dequeued s" "loop t = Writing m c rest'" by auto
  from Cons.IH[OF r(3) t(2)] Cons.prems(3,4) r(1,2) show ?case by simp
qed

lemma filter_key_single:
  "distinct (map f xs) \<Longrightarrow> x \<in> set xs \<Longrightarrow> filter (\<lambda>a. f a = f x) xs = [x]"
proof (induction xs)
  case Nil
  then show ?case by simp
next
  case (Cons y ys)
  show ?case
  proof (cases "y = x")
    case True
    have "filter (\<lambda>a. f a = f x) ys = []" using Cons.prems(1) True by (force simp: filter_empty_conv image_iff)
    then show ?thesis using True by simp
  next
    case False
    then have "x \<in> set ys" using Cons.prems(2) by simp
    moreover have "f y \<noteq> f x" using Cons.prems(1) \<open>x \<in> set ys\<close> by auto
    ultimately show ?thesis using Cons by simp
  qed
qed

lemma delivered_once:
  assumes "inv s" "finished s k" "c \<in> set (snapshot s k)" "c \<in> dom (clients s)"
  shows "deliveries s k c = [(k, c, message s k, WriteOk)]"
proof -
  have k: "k < length (dequeued s)" using assms(2) by (simp add: finished_def)
  have "\<not> (Suc k = length (dequeued s) \<and> (c \<in> set (pending (loop s)) \<or> writing (loop s) = Some c))"
    using assms(2) by (auto simp: finished_def)
  moreover have "(k, c, message s k, WriteOk) \<in> set (writes s)
      \<or> (Suc k = length (dequeued s) \<and> (c \<in> set (pending (loop s)) \<or> writing (loop s) = Some c))"
    using assms(1,3,4) k unfolding inv_def inv_deliv_def by blast
  ultimately have m: "(k, c, message s k, WriteOk) \<in> set (writes s)" by blast
  have d: "distinct (map (\<lambda>a. (seq_no a, target a)) (writes s))"
    using assms(1) by (simp add: inv_def inv_writes_def)
  from filter_key_single[OF d m] show ?thesis
    by (simp add: deliveries_def seq_no_def target_def)
qed

lemma decoded_append: "decoded h (es @ es') = decoded h es @ decoded h es'"
  by (induction h es rule: decoded.induct) simp_all

lemma decoded_step:
  assumes "step e t = Some s"
  shows "sent_by t h @ in_hand (handlers t h) @ decoded h [e] = sent_by s h @ in_hand (handlers s h)"
  using assms by (cases rule: stepE) (auto simp: sent_by_def dom_def)

lemma decoded_run:
  "run es init = Some s \<Longrightarrow> decoded h es = sent_by s h @ in_hand (handlers s h)"
proof (induction es arbitrary: s rule: rev_induct)
  case Nil
  then have "s = init" by simp
  then show ?case by (simp add: init_def sent_by_def)
next
  case (snoc e es)
  from run_snoc[OF snoc.prems] obtain t where t: "run es init = Some t" "step e t = Some s" by blast
  from snoc.IH[OF t(1)] decoded_step[OF t(2), of h] show ?case by (simp add: decoded_append)
qed

lemma sorted_distinct_filter:
  "sorted (map f xs) \<Longrightarrow> distinct (map (\<lambda>a. (f a, g a)) xs) \<Longrightarrow>
     sorted_wrt (<) (map f (filter (\<lambda>a. g a = c) xs))"
proof (induction xs)
  case Nil
  then show ?case by simp
next
  case (Cons x xs)
  have "f x < f y" if "y \<in> set xs" "g x = c" "g y = c" for y
  proof -
    have "f x \<le> f y" using Cons.prems(1) that(1) by simp
    moreover have "(f x, g x) \<noteq> (f y, g y)" using Cons.prems(2) that(1) by (force simp: image_iff)
    ultimately show ?thesis using that(2,3) by simp
  qed
  then show ?case using Cons by auto
qed

lemma gone_step:
  assumes "inv_loop t" "c \<in> dom (handlers t)" "c \<notin> dom (clients t)" "step e t = Some t'"
  shows "c \<in> dom (handlers t') \<and> c \<notin> dom (clients t')
     \<and> (writing (loop t') = Some c \<longrightarrow> writing (loop t) = Some c \<and> dequeued t' = dequeued t)
     \<and> (\<exists>new. writes t' = writes t @ new
           \<and> (\<forall>a \<in> set new. target a = c \<longrightarrow> writing (loop t) = Some c \<and> Suc (seq_no a) = length (dequeued t)))"
  using assms(4)
proof (cases rule: stepE)
  case (Next m w rest)
  have "w \<in> dom (clients t)" using assms(1) Next(2) by (auto simp: inv_loop_def)
  then have "w \<noteq> c" using assms(3) by blast
  then show ?thesis using Next assms(2,3) by simp
next
  case (Ok m w rest)
  have "dequeued t \<noteq> []" using assms(1) Ok(2) by (auto simp: inv_loop_def)
  then show ?thesis using Ok assms(2,3) by (simp add: target_def seq_no_def)
next
  case (Err m w rest)
  have "dequeued t \<noteq> []" using assms(1) Err(2) by (auto simp: inv_loop_def)
  then show ?thesis using Err assms(2,3) by (auto simp add: target_def seq_no_def delete_def)
qed (use assms(2,3) in \<open>auto simp: delete_def\<close>)

lemma gone_run:
  assumes "inv s" "c \<in> dom (handlers s)" "c \<notin> dom (clients s)" "run es s = Some s'"
  shows "c \<in> dom (handlers s') \<and> c \<notin> dom (clients s')
     \<and> (writing (loop s') = Some c \<longrightarrow> writing (loop s) = Some c \<and> dequeued s' = dequeued s)
     \<and> (\<exists>new. writes s' = writes s @ new
           \<and> (\<forall>a \<in> set new. target a = c \<longrightarrow> writing (loop s) = Some c \<and> seq_no a < length (dequeued s)))"
  using assms
proof (induction es arbitrary: s)
  case Nil
  then show ?case by simp
next
  case (Cons e es)
  from Cons.prems(4) obtain t where t: "step e s = Some t" "run es t = Some s'"
    by (auto split: option.splits)
  have il: "inv_loop s" using Cons.prems(1) by (simp add: inv_def)
  from gone_step[OF il Cons.prems(2,3) t(1)] obtain new1 where
    g: "c \<in> dom (handlers t)" "c \<notin> dom (clients t)"
       "writing (loop t) = Some c \<longrightarrow> writing (loop s) = Some c \<and> dequeued t = dequeued s"
       "writes t = writes s @ new1"
       "\<forall>a \<in> set new1. target a = c \<longrightarrow> writing (loop s) = Some c \<and> Suc (seq_no a) = length (dequeued s)"
    by blast
  from Cons.IH[OF inv_step[OF Cons.prems(1) t(1)] g(1,2) t(2)] obtain new2 where
    h: "c \<in> dom (handlers s')" "c \<notin> dom (clients s')"
       "writing (loop s') = Some c \<longrightarrow> writing (loop t) = Some c \<and> dequeued s' = dequeued t"
       "writes s' = writes t @ new2"
       "\<forall>a \<in> set new2. target a = c \<longrightarrow> writing (loop t) = Some c \<and> seq_no a < length (dequeued t)"
    by blast
  have "writes s' = writes s @ (new1 @ new2)" using g(4) h(4) by simp
  moreover have "\<forall>a \<in> set (new1 @ new2). target a = c \<longrightarrow>
      writing (loop s) = Some c \<and> seq_no a < length (dequeued s)"
    using g(3,5) h(5) by auto
  moreover have "writing (loop s') = Some c \<longrightarrow> writing (loop s) = Some c \<and> dequeued s' = dequeued s"
    using h(3) g(3) by simp
  ultimately show ?case using h(1,2) by blast
qed

lemma inv_active_step: "inv_active s \<Longrightarrow> step e s = Some s' \<Longrightarrow> inv_active s'"
  by (erule stepE) (auto simp: inv_active_def delete_def split: if_splits)

lemma inv_active_run: "inv_active s \<Longrightarrow> run es s = Some s' \<Longrightarrow> inv_active s'"
proof (induction es arbitrary: s)
  case Nil
  then show ?case by simp
next
  case (Cons e es)
  then show ?case by (auto split: option.splits dest: inv_active_step)
qed

lemma inv_active_init: "inv_active init"
  by (simp add: inv_active_def init_def)

lemma dequeued_step: "step e s = Some s' \<Longrightarrow> \<exists>ext. dequeued s' = dequeued s @ ext"
  by (erule stepE) auto

lemma dequeued_run: "run es s = Some s' \<Longrightarrow> \<exists>ext. dequeued s' = dequeued s @ ext"
proof (induction es arbitrary: s)
  case Nil
  then show ?case by simp
next
  case (Cons e es)
  from Cons.prems obtain t where t: "step e s = Some t" "run es t = Some s'"
    by (auto split: option.splits)
  from dequeued_step[OF t(1)] Cons.IH[OF t(2)] show ?case by auto
qed

lemma delivered_after_enqueue:
  assumes "run es1 init = Some s0" and "step (Send h order) s0 = Some s1" and "run es2 s1 = Some s"
    and "k = length (dequeued s0)" and "finished s k"
    and "c \<in> dom (clients s0)" and "c \<in> dom (clients s)"
  shows "handlers s0 h = Some (Sending (message s k)) \<and> sender s k = h
     \<and> message s k \<in> set (decoded h es1)
     \<and> deliveries s k c = [(k, c, message s k, WriteOk)]"
proof -
  have "\<exists>m. handlers s0 h = Some (Sending m) \<and> set order = dom (clients s0)
      \<and> dequeued s1 = dequeued s0 @ [(h, m, order)]"
    using assms(2) by (auto simp: broadcast_def split: option.splits handler_pc.splits if_splits)
  then obtain m where m: "handlers s0 h = Some (Sending m)" "set order = dom (clients s0)"
    "dequeued s1 = dequeued s0 @ [(h, m, order)]"
    by blast
  from dequeued_run[OF assms(3)] obtain ext where "dequeued s = dequeued s1 @ ext" by blast
  then have d: "dequeued s ! k = (h, m, order)" using m(3) assms(4) by (simp add: nth_append)
  then have o: "message s k = m" "sender s k = h" "snapshot s k = order"
    by (simp_all add: message_def sender_def snapshot_def)
  have "run (es1 @ Send h order # es2) init = Some s"
    using assms(1,2,3) by (simp add: run_append)
  then have i: "inv s" by (rule reachable_inv)
  have "c \<in> set (snapshot s k)" using o(3) m(2) assms(6) by simp
  from delivered_once[OF i assms(5) this assms(7)]
  have "deliveries s k c = [(k, c, message s k, WriteOk)]" .
  moreover have "m \<in> set (decoded h es1)" using decoded_run[OF assms(1), of h] m(1) by simp
  ultimately show ?thesis using o m(1) by simp
qed

lemma all_inserting:
  "distinct cs \<Longrightarrow> \<forall>c \<in> set cs. h_at s c = None \<Longrightarrow>
     \<exists>s'. access_run (all_insert cs) s = Some s' \<and> reg s' = reg s \<and> l_at s' = l_at s
        \<and> (\<forall>c. h_at s' c = (if c \<in> set cs then Some Inserting else h_at s c))"
proof (induction cs arbitrary: s)
  case Nil
  then show ?case by (simp add: all_insert_def)
next
  case (Cons c cs)
  let ?t = "s\<lparr>h_at := (h_at s)(c \<mapsto> Inserting)\<rparr>"
  have st: "access_step (Enter (Handler c) (Insert c)) s = Some ?t" using Cons.prems(2) by simp
  have "\<forall>x \<in> set cs. h_at ?t x = None" using Cons.prems by auto
  from Cons.IH[OF _ this] Cons.prems(1) obtain s' where
    s': "access_run (all_insert cs) ?t = Some s'" "reg s' = reg ?t" "l_at s' = l_at ?t"
        "\<forall>x. h_at s' x = (if x \<in> set cs then Some Inserting else h_at ?t x)"
    by auto
  have "access_run (all_insert (c # cs)) s = Some s'" using st s'(1) by (simp add: all_insert_def)
  then show ?case using s'(2,3,4) by auto
qed

section \<open>The claims\<close>

text \<open>
  C1. A failed write is isolated. From any state in which \<^verbatim>\<open>handleMessages\<close> is ranging
  over the connections \<open>p\<close> with message \<open>m\<close>, and for any results \<open>rs\<close> of the
  \<^verbatim>\<open>WriteJSON\<close> calls (any of them may be an error), the range runs to its end: every
  connection of \<open>p\<close> gets its write of \<open>m\<close>, in order, whatever happened to the ones
  before it; exactly the connections whose write failed are closed and deleted from
  \<open>clients\<close>; \<^verbatim>\<open>handleMessages\<close> is back at \<^verbatim>\<open><-broadcast\<close>; and no handler goroutine
  has moved, the one that sent \<open>m\<close> included. And in any state at all in which a write to
  \<open>c\<close> is running, its failure closes and deletes \<open>c\<close>, touches no handler, and leaves
  \<^verbatim>\<open>handleMessages\<close> at the head of its \<^verbatim>\<open>range\<close> with every key it had still to
  produce, able to go on.
\<close>

theorem write_failure_isolated:
  assumes "loop s = Ranging m p" "length rs = length p"
  shows "(\<exists>s'. run (fan_out rs) s = Some s'
       \<and> loop s' = Receiving
       \<and> writes s' = writes s @ map (\<lambda>(c, r). (length (dequeued s) - 1, c, m, r)) (zip p rs)
       \<and> handlers s' = handlers s
       \<and> dequeued s' = dequeued s
       \<and> closed s' = closed s \<union> {c. (c, WriteErr) \<in> set (zip p rs)}
       \<and> clients s' = (\<lambda>c. if (c, WriteErr) \<in> set (zip p rs) then None else clients s c))
     \<and> (\<forall>t c rest. loop t = Writing m c rest \<longrightarrow>
          (\<exists>t'. step (WriteRet WriteErr) t = Some t'
             \<and> loop t' = Ranging m rest \<and> handlers t' = handlers t \<and> dequeued t' = dequeued t
             \<and> closed t' = insert c (closed t) \<and> clients t' = delete (clients t) c
             \<and> step RangeNext t' \<noteq> None))"
proof -
  have a: "\<exists>s'. run (fan_out rs) s = Some s'
       \<and> loop s' = Receiving
       \<and> writes s' = writes s @ map (\<lambda>(c, r). (length (dequeued s) - 1, c, m, r)) (zip p rs)
       \<and> handlers s' = handlers s
       \<and> dequeued s' = dequeued s
       \<and> closed s' = closed s \<union> {c. (c, WriteErr) \<in> set (zip p rs)}
       \<and> clients s' = (\<lambda>c. if (c, WriteErr) \<in> set (zip p rs) then None else clients s c)"
    using assms
  proof (induction p arbitrary: rs s)
    case Nil
    then show ?case by (simp add: handleMessages_next_def)
  next
    case (Cons c p)
    then obtain r rs' where rs: "rs = r # rs'" "length rs' = length p" by (cases rs) auto
    have "\<exists>t. run [RangeNext, WriteRet r] s = Some t \<and> loop t = Ranging m p
      \<and> writes t = writes s @ [(length (dequeued s) - 1, c, m, r)] \<and> handlers t = handlers s
      \<and> dequeued t = dequeued s \<and> closed t = (if r = WriteErr then insert c (closed s) else closed s)
      \<and> clients t = (if r = WriteErr then delete (clients s) c else clients s)"
      using Cons.prems(1)
      by (cases r) (simp_all add: handleMessages_next_def handleMessages_write_def)
    then obtain t where t: "run [RangeNext, WriteRet r] s = Some t" "loop t = Ranging m p"
      "writes t = writes s @ [(length (dequeued s) - 1, c, m, r)]" "handlers t = handlers s"
      "dequeued t = dequeued s" "closed t = (if r = WriteErr then insert c (closed s) else closed s)"
      "clients t = (if r = WriteErr then delete (clients s) c else clients s)"
      by blast
    from Cons.IH[OF t(2) rs(2)] obtain s' where s': "run (fan_out rs') t = Some s'"
       "loop s' = Receiving"
       "writes s' = writes t @ map (\<lambda>(c, r). (length (dequeued t) - 1, c, m, r)) (zip p rs')"
       "handlers s' = handlers t" "dequeued s' = dequeued t"
       "closed s' = closed t \<union> {c. (c, WriteErr) \<in> set (zip p rs')}"
       "clients s' = (\<lambda>c. if (c, WriteErr) \<in> set (zip p rs') then None else clients t c)"
      by blast
    have "run (fan_out rs) s = Some s'" using t(1) s'(1) rs(1) by (auto split: option.splits)
    then show ?case using s' t rs(1) by (auto simp: delete_def fun_eq_iff)
  qed
  have b: "\<exists>t'. step (WriteRet WriteErr) t = Some t'
             \<and> loop t' = Ranging m rest \<and> handlers t' = handlers t \<and> dequeued t' = dequeued t
             \<and> closed t' = insert c (closed t) \<and> clients t' = delete (clients t) c
             \<and> step RangeNext t' \<noteq> None"
    if "loop t = Writing m c rest" for t c rest
    using that by (cases rest) (simp_all add: handleMessages_write_def handleMessages_next_def)
  show ?thesis using a b by blast
qed

theorem write_failure_isolated_witness:
  "loop (the (run [Accept 1 None, Accept 2 None, Accept 3 None, ReadOk 1 alice_hi, Send 1 [3, 2, 1]] init))
      = Ranging alice_hi [3, 2, 1]
   \<and> length [WriteOk, WriteErr, WriteOk] = length [3::conn, 2, 1]
   \<and> (\<exists>s'. run (fan_out [WriteOk, WriteErr, WriteOk])
          (the (run [Accept 1 None, Accept 2 None, Accept 3 None, ReadOk 1 alice_hi, Send 1 [3, 2, 1]] init)) = Some s'
        \<and> loop s' = Receiving
        \<and> writes s' = [(0, 3, alice_hi, WriteOk), (0, 2, alice_hi, WriteErr), (0, 1, alice_hi, WriteOk)]
        \<and> handlers s' 1 = Some Reading \<and> handlers s' 2 = Some Reading
        \<and> closed s' = {2}
        \<and> dom (clients s') = {1, 3})"
proof -
  define s where "s = the (run [Accept 1 None, Accept 2 None, Accept 3 None, ReadOk 1 alice_hi, Send 1 [3, 2, 1]] init)"
  have h: "loop s = Ranging alice_hi [3, 2, 1]" and o: "writes s = []" "handlers s 1 = Some Reading"
    "handlers s 2 = Some Reading" "closed s = {}" "dom (clients s) = {1, 2, 3}" "length (dequeued s) = 1"
    by (auto simp add: s_def stmt_defs)
  have l: "length [WriteOk, WriteErr, WriteOk] = length [3::conn, 2, 1]" by simp
  from write_failure_isolated[OF h l] obtain s' where s': "run (fan_out [WriteOk, WriteErr, WriteOk]) s = Some s'"
     "loop s' = Receiving"
     "writes s' = writes s @ map (\<lambda>(c, r). (length (dequeued s) - 1, c, alice_hi, r)) (zip [3, 2, 1] [WriteOk, WriteErr, WriteOk])"
     "handlers s' = handlers s"
     "closed s' = closed s \<union> {c. (c, WriteErr) \<in> set (zip [3, 2, 1] [WriteOk, WriteErr, WriteOk])}"
     "clients s' = (\<lambda>c. if (c, WriteErr) \<in> set (zip [3, 2, 1] [WriteOk, WriteErr, WriteOk]) then None else clients s c)"
    by blast
  have "dom (clients s') = dom (clients s) - {2}" unfolding s'(6) by (auto simp: dom_def)
  then have "dom (clients s') = {1, 3}" using o(5) by auto
  moreover have "closed s' = {2}" using s'(5) o(4) by auto
  moreover have "writes s' = [(0, 3, alice_hi, WriteOk), (0, 2, alice_hi, WriteErr), (0, 1, alice_hi, WriteOk)]"
    using s'(3) o(1,6) by simp
  ultimately show ?thesis using h s'(1,2,4) o(2,3) unfolding s_def[symmetric] by auto
qed

text \<open>
  C7. A handler whose \<^verbatim>\<open>ReadJSON\<close> fails leaves its loop: its connection is deleted
  from \<open>clients\<close> and closed, the handler has returned and stays so (it never reads
  again and its connection never comes back into \<open>clients\<close>). Nothing else changes: every
  other handler, every other entry of \<open>clients\<close>, and \<^verbatim>\<open>handleMessages\<close>, which only
  loses that connection from what its \<^verbatim>\<open>range\<close> has still to produce.
\<close>

theorem read_failure_closes_handler:
  assumes "handlers s c = Some Reading"
  shows "\<exists>s'. step (ReadErr c) s = Some s'
     \<and> handlers s' c = Some Done \<and> c \<notin> dom (clients s') \<and> c \<in> closed s'
     \<and> (\<forall>c'. c' \<noteq> c \<longrightarrow> handlers s' c' = handlers s c' \<and> clients s' c' = clients s c'
                \<and> (c' \<in> closed s') = (c' \<in> closed s))
     \<and> loop s' = range_remove c (loop s) \<and> dequeued s' = dequeued s \<and> writes s' = writes s
     \<and> (\<forall>es s''. run es s' = Some s'' \<longrightarrow> handlers s'' c = Some Done \<and> c \<notin> dom (clients s'')
            \<and> step (ReadErr c) s'' = None \<and> (\<forall>m. step (ReadOk c m) s'' = None))"
proof -
  let ?s' = "s\<lparr>clients := delete (clients s) c, closed := insert c (closed s),
               handlers := (handlers s)(c \<mapsto> Done), loop := range_remove c (loop s)\<rparr>"
  have st: "step (ReadErr c) s = Some ?s'" using assms by (simp add: ws_read_err_def)
  have d: "handlers ?s' c = Some Done" "c \<notin> dom (clients ?s')" by (simp_all add: delete_def)
  have later: "handlers s'' c = Some Done \<and> c \<notin> dom (clients s'')
            \<and> step (ReadErr c) s'' = None \<and> (\<forall>m. step (ReadOk c m) s'' = None)"
    if "run es ?s' = Some s''" for es s''
    using done_run[OF d that] by (simp add: ws_read_err_def ws_read_ok_def)
  show ?thesis
    apply (rule exI[of _ ?s'])
    using st later by (simp add: delete_def)
qed

theorem read_failure_closes_handler_witness:
  "handlers (the (run [Accept 1 None, Accept 2 None] init)) 1 = Some Reading
   \<and> (\<exists>s'. step (ReadErr 1) (the (run [Accept 1 None, Accept 2 None] init)) = Some s'
        \<and> handlers s' 1 = Some Done \<and> 1 \<notin> dom (clients s') \<and> 1 \<in> closed s'
        \<and> handlers s' 2 = Some Reading \<and> clients s' 2 = Some True \<and> 2 \<notin> closed s'
        \<and> loop s' = Receiving
        \<and> step (ReadErr 1) s' = None \<and> step (ReadOk 1 alice_hi) s' = None)"
proof -
  define s where "s = the (run [Accept 1 None, Accept 2 None] init)"
  have h: "handlers s 1 = Some Reading" and o: "handlers s 2 = Some Reading" "clients s 2 = Some True"
    "2 \<notin> closed s" "loop s = Receiving"
    by (simp_all add: s_def stmt_defs)
  from read_failure_closes_handler[OF h] obtain s' where s': "step (ReadErr 1) s = Some s'"
     "handlers s' 1 = Some Done" "1 \<notin> dom (clients s')" "1 \<in> closed s'"
     "\<forall>c'. c' \<noteq> 1 \<longrightarrow> handlers s' c' = handlers s c' \<and> clients s' c' = clients s c'
                \<and> (c' \<in> closed s') = (c' \<in> closed s)"
     "loop s' = range_remove 1 (loop s)"
     "\<forall>es s''. run es s' = Some s'' \<longrightarrow> handlers s'' 1 = Some Done \<and> 1 \<notin> dom (clients s'')
            \<and> step (ReadErr 1) s'' = None \<and> (\<forall>m. step (ReadOk 1 m) s'' = None)"
    by blast
  have "run [] s' = Some s'" by simp
  with s'(7) have l: "step (ReadErr 1) s' = None" "step (ReadOk 1 alice_hi) s' = None" by blast+
  have "(2::nat) \<noteq> 1" by simp
  with s'(5) have "handlers s' 2 = handlers s 2" "clients s' 2 = clients s 2" "(2 \<in> closed s') = (2 \<in> closed s)"
    by blast+
  with o s' l h show ?thesis unfolding s_def[symmetric] by auto
qed

text \<open>
  C8. Removing is idempotent. \<^verbatim>\<open>delete\<close> on a registry is a total function (there is no
  error to raise): deleting a connection twice is the same as deleting it once, deleting an
  absent connection gives the registry back, and the entry of every other connection is
  untouched. Both places that remove, the handler's deferred function and the failure
  branch of \<^verbatim>\<open>handleMessages\<close>, go through when the connection is already absent, and
  leave \<open>clients\<close> as it was.
\<close>

theorem remove_is_idempotent:
  "delete (delete r c) c = delete r c
   \<and> (c \<notin> dom r \<longrightarrow> delete r c = r)
   \<and> (\<forall>c'. c' \<noteq> c \<longrightarrow> delete r c c' = r c')
   \<and> (\<forall>s. c \<notin> dom (clients s) \<and> handlers s c = Some Reading \<longrightarrow>
         (\<exists>s'. step (ReadErr c) s = Some s' \<and> clients s' = clients s))
   \<and> (\<forall>s m rest. c \<notin> dom (clients s) \<and> loop s = Writing m c rest \<longrightarrow>
         (\<exists>s'. step (WriteRet WriteErr) s = Some s' \<and> clients s' = clients s))"
proof -
  have absent: "delete m c = m" if "c \<notin> dom m" for m :: registry
    using that by (auto simp: delete_def fun_eq_iff)
  show ?thesis
    by (auto simp: absent ws_read_err_def handleMessages_write_def) (simp_all add: delete_def)
qed

theorem remove_is_idempotent_witness:
  "delete (delete [1 \<mapsto> True, 2 \<mapsto> True] 2) 2 = delete [1 \<mapsto> True, 2 \<mapsto> True] 2
   \<and> 2 \<notin> dom [1::conn \<mapsto> True] \<and> delete [1 \<mapsto> True] 2 = [1 \<mapsto> True]
   \<and> delete [1 \<mapsto> True, 2 \<mapsto> True] 2 1 = Some True
   \<and> 2 \<notin> dom (clients (the (run [Accept 1 None, Accept 2 None, ReadOk 1 alice_hi, Send 1 [2, 1],
                                    RangeNext, WriteRet WriteErr] init)))
   \<and> (\<exists>s'. step (ReadErr 2) (the (run [Accept 1 None, Accept 2 None, ReadOk 1 alice_hi, Send 1 [2, 1],
                                    RangeNext, WriteRet WriteErr] init)) = Some s'
          \<and> clients s' 1 = Some True \<and> clients s' 2 = None)
   \<and> 2 \<notin> dom (clients (the (run [Accept 1 None, Accept 2 None, ReadOk 1 alice_hi, Send 1 [2, 1],
                                    RangeNext, ReadErr 2] init)))
   \<and> (\<exists>s'. step (WriteRet WriteErr) (the (run [Accept 1 None, Accept 2 None, ReadOk 1 alice_hi, Send 1 [2, 1],
                                    RangeNext, ReadErr 2] init)) = Some s'
          \<and> clients s' 1 = Some True \<and> clients s' 2 = None)"
proof -
  define s1 where "s1 = the (run [Accept 1 None, Accept 2 None, ReadOk 1 alice_hi, Send 1 [2, 1],
                                    RangeNext, WriteRet WriteErr] init)"
  define s2 where "s2 = the (run [Accept 1 None, Accept 2 None, ReadOk 1 alice_hi, Send 1 [2, 1],
                                    RangeNext, ReadErr 2] init)"
  have h1: "2 \<notin> dom (clients s1)" "handlers s1 2 = Some Reading" "clients s1 1 = Some True" "clients s1 2 = None"
    by (auto simp: s1_def stmt_defs)
  have h2: "2 \<notin> dom (clients s2)" "loop s2 = Writing alice_hi 2 [1]" "clients s2 1 = Some True" "clients s2 2 = None"
    by (auto simp: s2_def stmt_defs)
  have a: "2 \<notin> dom [1::conn \<mapsto> True]" "(1::conn) \<noteq> 2" by simp_all
  note t = remove_is_idempotent[of "[1 \<mapsto> True, 2 \<mapsto> True]" 2]
  note u = remove_is_idempotent[of "[1 \<mapsto> True]" 2]
  from t have "\<exists>s'. step (ReadErr 2) s1 = Some s' \<and> clients s' = clients s1" using h1(1,2) by blast
  then have r1: "\<exists>s'. step (ReadErr 2) s1 = Some s' \<and> clients s' 1 = Some True \<and> clients s' 2 = None"
    using h1(3,4) by auto
  from t have "\<exists>s'. step (WriteRet WriteErr) s2 = Some s' \<and> clients s' = clients s2" using h2(1,2) by blast
  then have r2: "\<exists>s'. step (WriteRet WriteErr) s2 = Some s' \<and> clients s' 1 = Some True \<and> clients s' 2 = None"
    using h2(3,4) by auto
  have "delete (delete [1 \<mapsto> True, 2 \<mapsto> True] 2) 2 = delete [1 \<mapsto> True, 2 \<mapsto> True] 2" using t by blast
  moreover have "delete [1 \<mapsto> True] 2 = [1 \<mapsto> True]" using u a(1) by blast
  moreover have "delete [1 \<mapsto> True, 2 \<mapsto> True] 2 1 = Some True" using t a(2) by (simp add: delete_def)
  ultimately show ?thesis using r1 r2 h1(1) h2(1) a(1) unfolding s1_def[symmetric] s2_def[symmetric] by blast
qed

text \<open>
  C9, as the code has it. \<^verbatim>\<open>client.WriteJSON(msg)\<close> is an ordinary call inside the
  \<^verbatim>\<open>range\<close> loop: no deadline is set on it and no goroutine is started for it. While
  a write to \<open>c\<close> has not returned, whatever the other goroutines do, \<^verbatim>\<open>handleMessages\<close>
  stays in that call with the same message: no write to any other connection completes,
  no further message is dequeued and the \<^verbatim>\<open>range\<close> cannot advance. Only the return of
  that write, with \<open>nil\<close> or with an error, lets the range go on.
\<close>

theorem write_in_progress_stalls_fan_out:
  assumes "loop s = Writing m c rest" "run es s = Some s'"
    and "WriteRet WriteOk \<notin> set es" "WriteRet WriteErr \<notin> set es"
  shows "writing (loop s') = Some c \<and> carried (loop s') = Some m
     \<and> writes s' = writes s \<and> dequeued s' = dequeued s
     \<and> step RangeNext s' = None
     \<and> (\<exists>t. step (WriteRet WriteOk) s' = Some t \<and> carried (loop t) = Some m \<and> writing (loop t) = None)
     \<and> (\<exists>t. step (WriteRet WriteErr) s' = Some t \<and> carried (loop t) = Some m \<and> writing (loop t) = None)"
proof -
  from stall_run[OF assms] obtain rest' where
    r: "writes s' = writes s" "dequeued s' = dequeued s" "loop s' = Writing m c rest'" by auto
  then show ?thesis by (simp add: handleMessages_next_def handleMessages_write_def)
qed

theorem write_in_progress_stalls_fan_out_witness:
  "loop (the (run [Accept 1 None, Accept 2 None, ReadOk 1 alice_hi, Send 1 [1, 2], RangeNext] init))
      = Writing alice_hi 1 [2]
   \<and> run [ReadOk 2 bob_hello, Accept 3 (Some 0), ReadOk 1 alice_hi, ReadErr 3]
        (the (run [Accept 1 None, Accept 2 None, ReadOk 1 alice_hi, Send 1 [1, 2], RangeNext] init)) \<noteq> None
   \<and> WriteRet WriteOk \<notin> set [ReadOk 2 bob_hello, Accept 3 (Some 0), ReadOk 1 alice_hi, ReadErr 3]
   \<and> WriteRet WriteErr \<notin> set [ReadOk 2 bob_hello, Accept 3 (Some 0), ReadOk 1 alice_hi, ReadErr 3]
   \<and> writing (loop (the (run [ReadOk 2 bob_hello, Accept 3 (Some 0), ReadOk 1 alice_hi, ReadErr 3]
        (the (run [Accept 1 None, Accept 2 None, ReadOk 1 alice_hi, Send 1 [1, 2], RangeNext] init))))) = Some 1
   \<and> writes (the (run [ReadOk 2 bob_hello, Accept 3 (Some 0), ReadOk 1 alice_hi, ReadErr 3]
        (the (run [Accept 1 None, Accept 2 None, ReadOk 1 alice_hi, Send 1 [1, 2], RangeNext] init)))) = []
   \<and> step RangeNext (the (run [ReadOk 2 bob_hello, Accept 3 (Some 0), ReadOk 1 alice_hi, ReadErr 3]
        (the (run [Accept 1 None, Accept 2 None, ReadOk 1 alice_hi, Send 1 [1, 2], RangeNext] init)))) = None"
proof -
  define s where "s = the (run [Accept 1 None, Accept 2 None, ReadOk 1 alice_hi, Send 1 [1, 2], RangeNext] init)"
  define es where "es = [ReadOk 2 bob_hello, Accept 3 (Some 0), ReadOk 1 alice_hi, ReadErr 3]"
  define s' where "s' = the (run es s)"
  have h: "loop s = Writing alice_hi 1 [2]" and w: "writes s = []"
    by (auto simp: s_def stmt_defs)
  have "run es s \<noteq> None" by (auto simp: s_def es_def stmt_defs)
  then have r: "run es s = Some s'" by (auto simp: s'_def)
  have n: "WriteRet WriteOk \<notin> set es" "WriteRet WriteErr \<notin> set es" by (simp_all add: es_def)
  from write_in_progress_stalls_fan_out[OF h r n] w
  have "writing (loop s') = Some 1" "writes s' = []" "step RangeNext s' = None" by simp_all
  then show ?thesis using h r n unfolding s_def[symmetric] es_def[symmetric] s'_def[symmetric] by simp
qed

text \<open>
  Against C9 as stated: connections 1 and 2 are registered, 1 sends, the range starts with
  the write to 1. Until that write returns connection 2, registered all along, has been
  written nothing, and the range cannot step to it.
\<close>

theorem write_timeout_counterexample:
  "loop (the (run [Accept 1 None, Accept 2 None, ReadOk 1 alice_hi, Send 1 [1, 2], RangeNext] init))
      = Writing alice_hi 1 [2]
   \<and> 2 \<in> dom (clients (the (run [Accept 1 None, Accept 2 None, ReadOk 1 alice_hi, Send 1 [1, 2], RangeNext] init)))
   \<and> writes (the (run [Accept 1 None, Accept 2 None, ReadOk 1 alice_hi, Send 1 [1, 2], RangeNext] init)) = []
   \<and> step RangeNext (the (run [Accept 1 None, Accept 2 None, ReadOk 1 alice_hi, Send 1 [1, 2], RangeNext] init)) = None"
  by (simp add: stmt_defs insert_commute)

text \<open>
  C4, as the code has it. \<^verbatim>\<open>broadcast\<close> is \<^verbatim>\<open>make(chan Message)\<close>: it holds no message. A
  handler standing at \<^verbatim>\<open>broadcast <- msg\<close> gets past it only by the hand-over to
  \<^verbatim>\<open>handleMessages\<close>, which needs \<^verbatim>\<open>handleMessages\<close> to be waiting at \<^verbatim>\<open><-broadcast\<close>;
  the message is then dequeued in the same step. While \<^verbatim>\<open>handleMessages\<close> is anywhere
  else, every step leaves the handler at its send with its message.
\<close>

theorem enqueue_is_rendezvous:
  assumes "handlers s c = Some (Sending m)"
  shows "(\<forall>order s'. step (Send c order) s = Some s' \<longrightarrow>
            loop s = Receiving \<and> loop s' = Ranging m order
            \<and> dequeued s' = dequeued s @ [(c, m, order)] \<and> handlers s' c = Some Reading)
     \<and> (\<forall>e s'. step e s = Some s' \<and> handlers s' c \<noteq> Some (Sending m) \<longrightarrow> (\<exists>order. e = Send c order))
     \<and> (loop s \<noteq> Receiving \<longrightarrow> (\<forall>e s'. step e s = Some s' \<longrightarrow> handlers s' c = Some (Sending m)))"
proof -
  have a: "loop s = Receiving \<and> loop s' = Ranging m order
            \<and> dequeued s' = dequeued s @ [(c, m, order)] \<and> handlers s' c = Some Reading"
    if "step (Send c order) s = Some s'" for order s'
    using that assms by (auto simp: broadcast_def split: if_splits)
  have b: "\<exists>order. e = Send c order"
    if "step e s = Some s'" "handlers s' c \<noteq> Some (Sending m)" for e s'
    using that assms by (cases rule: stepE) (auto split: if_splits)
  have c: "handlers s' c = Some (Sending m)" if "loop s \<noteq> Receiving" "step e s = Some s'" for e s'
    using b[OF that(2)] a that by blast
  show ?thesis using a b c by blast
qed

theorem enqueue_is_rendezvous_witness:
  "handlers (the (run [Accept 1 None, Accept 2 None, ReadOk 1 alice_hi] init)) 1 = Some (Sending alice_hi)
   \<and> step (Send 1 [2, 1]) (the (run [Accept 1 None, Accept 2 None, ReadOk 1 alice_hi] init)) \<noteq> None
   \<and> loop (the (step (Send 1 [2, 1]) (the (run [Accept 1 None, Accept 2 None, ReadOk 1 alice_hi] init))))
        = Ranging alice_hi [2, 1]
   \<and> dequeued (the (step (Send 1 [2, 1]) (the (run [Accept 1 None, Accept 2 None, ReadOk 1 alice_hi] init))))
        = [(1, alice_hi, [2, 1])]
   \<and> handlers (the (run [Accept 1 None, Accept 2 None, ReadOk 1 alice_hi, Send 1 [2, 1], ReadOk 2 bob_hello] init)) 2
        = Some (Sending bob_hello)
   \<and> loop (the (run [Accept 1 None, Accept 2 None, ReadOk 1 alice_hi, Send 1 [2, 1], ReadOk 2 bob_hello] init))
        \<noteq> Receiving
   \<and> step RangeNext (the (run [Accept 1 None, Accept 2 None, ReadOk 1 alice_hi, Send 1 [2, 1], ReadOk 2 bob_hello] init))
        \<noteq> None
   \<and> handlers (the (step RangeNext
        (the (run [Accept 1 None, Accept 2 None, ReadOk 1 alice_hi, Send 1 [2, 1], ReadOk 2 bob_hello] init)))) 2
        = Some (Sending bob_hello)"
proof -
  define s0 where "s0 = the (run [Accept 1 None, Accept 2 None, ReadOk 1 alice_hi] init)"
  define s1 where "s1 = the (step (Send 1 [2, 1]) s0)"
  define s where "s = the (run [Accept 1 None, Accept 2 None, ReadOk 1 alice_hi, Send 1 [2, 1], ReadOk 2 bob_hello] init)"
  define s2 where "s2 = the (step RangeNext s)"
  have h0: "handlers s0 1 = Some (Sending alice_hi)" and d0: "dequeued s0 = []"
    by (auto simp: s0_def stmt_defs)
  have "step (Send 1 [2, 1]) s0 \<noteq> None" by (auto simp: s0_def stmt_defs)
  then have e1: "step (Send 1 [2, 1]) s0 = Some s1" by (auto simp: s1_def)
  from enqueue_is_rendezvous[OF h0] e1 d0
  have r1: "loop s1 = Ranging alice_hi [2, 1]" "dequeued s1 = [(1, alice_hi, [2, 1])]" by auto
  have h: "handlers s 2 = Some (Sending bob_hello)" and l: "loop s \<noteq> Receiving"
    by (auto simp: s_def stmt_defs)
  have "step RangeNext s \<noteq> None" by (auto simp: s_def stmt_defs)
  then have e2: "step RangeNext s = Some s2" by (auto simp: s2_def)
  from enqueue_is_rendezvous[OF h] l e2 have r2: "handlers s2 2 = Some (Sending bob_hello)" by blast
  show ?thesis using h0 e1 r1 h l e2 r2
    unfolding s0_def[symmetric] s1_def[symmetric] s_def[symmetric] s2_def[symmetric] by simp
qed

text \<open>
  Against C4 as stated: handler 2 has decoded a message while \<^verbatim>\<open>handleMessages\<close> is
  fanning out the message of handler 1. Its send cannot complete, although the iteration
  order offered is a proper enumeration of \<open>clients\<close>: the channel has no room to take
  the message.
\<close>

theorem unbounded_channel_counterexample:
  "handlers (the (run [Accept 1 None, Accept 2 None, ReadOk 1 alice_hi, Send 1 [2, 1], ReadOk 2 bob_hello] init)) 2
        = Some (Sending bob_hello)
   \<and> loop (the (run [Accept 1 None, Accept 2 None, ReadOk 1 alice_hi, Send 1 [2, 1], ReadOk 2 bob_hello] init))
        = Ranging alice_hi [2, 1]
   \<and> distinct [2::conn, 1]
   \<and> set [2, 1] = dom (clients (the (run [Accept 1 None, Accept 2 None, ReadOk 1 alice_hi, Send 1 [2, 1],
                                           ReadOk 2 bob_hello] init)))
   \<and> step (Send 2 [2, 1]) (the (run [Accept 1 None, Accept 2 None, ReadOk 1 alice_hi, Send 1 [2, 1],
                                           ReadOk 2 bob_hello] init)) = None"
  by (simp add: stmt_defs)



text \<open>
  C3. Along any schedule, the messages \<^verbatim>\<open>handleMessages\<close> has received from a handler
  \<open>h\<close>, in the order it received them, followed by the one \<open>h\<close> may be holding at its
  send, are the messages \<open>h\<close> decoded, in the order it decoded them. On every connection
  \<open>c\<close> the writes that returned carry strictly increasing message indices: \<open>c\<close> sees
  the messages in the order they were dequeued, none twice. And every write carries the
  message dequeued under its index.
\<close>

theorem messages_observed_in_enqueue_order:
  assumes "run es init = Some s"
  shows "decoded h es = sent_by s h @ in_hand (handlers s h)
     \<and> sorted_wrt (<) (map seq_no (written_to s c))
     \<and> (\<forall>a \<in> set (writes s). seq_no a < length (dequeued s) \<and> payload a = message s (seq_no a))"
proof -
  have i: "inv_writes s" using reachable_inv[OF assms] by (simp add: inv_def)
  have "sorted_wrt (<) (map seq_no (written_to s c))"
    unfolding written_to_def using i sorted_distinct_filter[of seq_no "writes s" target c]
    by (simp add: inv_writes_def)
  moreover have "\<forall>a \<in> set (writes s). seq_no a < length (dequeued s) \<and> payload a = message s (seq_no a)"
    using i unfolding inv_writes_def by blast
  ultimately show ?thesis using decoded_run[OF assms] by blast
qed

theorem messages_observed_in_enqueue_order_witness:
  "run two_messages init \<noteq> None
   \<and> decoded 1 two_messages = [alice_hi, bob_hello]
   \<and> sent_by (the (run two_messages init)) 1 = [alice_hi, bob_hello]
   \<and> in_hand (handlers (the (run two_messages init)) 1) = []
   \<and> sorted_wrt (<) (map seq_no (written_to (the (run two_messages init)) 2))
   \<and> written_to (the (run two_messages init)) 2 = [(0, 2, alice_hi, WriteOk), (1, 2, bob_hello, WriteOk)]
   \<and> written_to (the (run two_messages init)) 1 = [(0, 1, alice_hi, WriteOk), (1, 1, bob_hello, WriteOk)]"
proof -
  define s where "s = the (run two_messages init)"
  have "run two_messages init \<noteq> None" by (simp add: two_messages_def stmt_defs)
  then have r: "run two_messages init = Some s" by (auto simp: s_def)
  have e: "decoded 1 two_messages = [alice_hi, bob_hello]" "in_hand (handlers s 1) = []"
    "written_to s 2 = [(0, 2, alice_hi, WriteOk), (1, 2, bob_hello, WriteOk)]"
    "written_to s 1 = [(0, 1, alice_hi, WriteOk), (1, 1, bob_hello, WriteOk)]"
    unfolding s_def by (simp_all add: two_messages_def stmt_defs written_to_def target_def)
  from messages_observed_in_enqueue_order[OF r, of 1 2]
  have "decoded 1 two_messages = sent_by s 1 @ in_hand (handlers s 1)"
    "sorted_wrt (<) (map seq_no (written_to s 2))" by blast+
  then show ?thesis using r e unfolding s_def[symmetric] by simp
qed

text \<open>
  C2. Let \<open>c\<close> be a connection that was accepted and is no longer in \<open>clients\<close> in a
  reachable state \<open>s\<close>, whoever removed it. Whatever happens from \<open>s\<close> on: \<open>c\<close> does not
  come back into \<open>clients\<close> and is never again among the keys a \<^verbatim>\<open>range\<close> has still to
  produce; a \<^verbatim>\<open>WriteJSON\<close> on \<open>c\<close> can only be the very call that was already running
  in \<open>s\<close>, for a message dequeued before \<open>s\<close>; and every write on \<open>c\<close> that returns
  after \<open>s\<close> is that call. In particular no message dequeued after the removal is written
  to \<open>c\<close>, and after a failed write to \<open>c\<close> (which removes \<open>c\<close> in the same step, with
  no write running any more) nothing at all is written to \<open>c\<close>.
\<close>

theorem no_delivery_after_removal:
  assumes "run es init = Some s" and "c \<in> dom (handlers s)" and "c \<notin> dom (clients s)"
    and "run es' s = Some s'"
  shows "c \<notin> dom (clients s') \<and> c \<notin> set (pending (loop s'))
     \<and> (writing (loop s') = Some c \<longrightarrow> writing (loop s) = Some c \<and> dequeued s' = dequeued s)
     \<and> take (length (writes s)) (writes s') = writes s
     \<and> (\<forall>a \<in> set (drop (length (writes s)) (writes s')). target a = c \<longrightarrow>
            writing (loop s) = Some c \<and> seq_no a < length (dequeued s))"
proof -
  have i: "inv s" using reachable_inv[OF assms(1)] .
  from gone_run[OF i assms(2,3,4)] obtain new where
    h: "c \<notin> dom (clients s')"
       "writing (loop s') = Some c \<longrightarrow> writing (loop s) = Some c \<and> dequeued s' = dequeued s"
       "writes s' = writes s @ new"
       "\<forall>a \<in> set new. target a = c \<longrightarrow> writing (loop s) = Some c \<and> seq_no a < length (dequeued s)"
    by blast
  have "inv_loop s'" using inv_run[OF i assms(4)] by (simp add: inv_def)
  then have "c \<notin> set (pending (loop s'))" using h(1) unfolding inv_loop_def by blast
  then show ?thesis using h by simp
qed

theorem no_delivery_after_removal_witness:
  "run [Accept 1 None, Accept 2 None, ReadOk 1 alice_hi, Send 1 [2, 1], RangeNext, WriteRet WriteErr] init \<noteq> None
   \<and> 2 \<in> dom (handlers (the (run [Accept 1 None, Accept 2 None, ReadOk 1 alice_hi, Send 1 [2, 1], RangeNext,
                                    WriteRet WriteErr] init)))
   \<and> 2 \<notin> dom (clients (the (run [Accept 1 None, Accept 2 None, ReadOk 1 alice_hi, Send 1 [2, 1], RangeNext,
                                    WriteRet WriteErr] init)))
   \<and> run ([RangeNext, WriteRet WriteOk, RangeNext, ReadOk 1 bob_hello, Send 1 [1]] @ fan_out [WriteOk])
        (the (run [Accept 1 None, Accept 2 None, ReadOk 1 alice_hi, Send 1 [2, 1], RangeNext,
                   WriteRet WriteErr] init)) \<noteq> None
   \<and> 2 \<notin> dom (clients (the (run ([RangeNext, WriteRet WriteOk, RangeNext, ReadOk 1 bob_hello, Send 1 [1]]
                                      @ fan_out [WriteOk])
        (the (run [Accept 1 None, Accept 2 None, ReadOk 1 alice_hi, Send 1 [2, 1], RangeNext,
                   WriteRet WriteErr] init)))))
   \<and> writes (the (run ([RangeNext, WriteRet WriteOk, RangeNext, ReadOk 1 bob_hello, Send 1 [1]]
                                      @ fan_out [WriteOk])
        (the (run [Accept 1 None, Accept 2 None, ReadOk 1 alice_hi, Send 1 [2, 1], RangeNext,
                   WriteRet WriteErr] init))))
       = [(0, 2, alice_hi, WriteErr), (0, 1, alice_hi, WriteOk), (1, 1, bob_hello, WriteOk)]"
proof -
  define s where "s = the (run [Accept 1 None, Accept 2 None, ReadOk 1 alice_hi, Send 1 [2, 1], RangeNext,
                   WriteRet WriteErr] init)"
  define es' where "es' = [RangeNext, WriteRet WriteOk, RangeNext, ReadOk 1 bob_hello, Send 1 [1]] @ fan_out [WriteOk]"
  define s' where "s' = the (run es' s)"
  have "run [Accept 1 None, Accept 2 None, ReadOk 1 alice_hi, Send 1 [2, 1], RangeNext, WriteRet WriteErr] init \<noteq> None"
    by (simp add: stmt_defs)
  then have r: "run [Accept 1 None, Accept 2 None, ReadOk 1 alice_hi, Send 1 [2, 1], RangeNext, WriteRet WriteErr] init = Some s"
    by (auto simp: s_def)
  have h: "2 \<in> dom (handlers s)" "2 \<notin> dom (clients s)"
    unfolding s_def by (simp_all add: stmt_defs)
  have "run es' s \<noteq> None" unfolding s_def es'_def by (simp add: stmt_defs)
  then have r': "run es' s = Some s'" by (auto simp: s'_def)
  have w: "writes s' = [(0, 2, alice_hi, WriteErr), (0, 1, alice_hi, WriteOk), (1, 1, bob_hello, WriteOk)]"
    unfolding s'_def s_def es'_def by (simp add: stmt_defs)
  from no_delivery_after_removal[OF r h r'] have "2 \<notin> dom (clients s')" by blast
  then show ?thesis using r h r' w unfolding s_def[symmetric] es'_def[symmetric] s'_def[symmetric] by simp
qed

text \<open>
  C10, as the code has it. A connection whose handler has not started is not in
  \<open>clients\<close> and cannot read; the handler's first statement puts it into \<open>clients\<close>, and
  only then it reads. A handler that has started and not returned, and whose connection
  was not closed by a failed write, has its connection in \<open>clients\<close>. And wherever the
  schedule is cut at a hand-over of a message: a connection that was in \<open>clients\<close> at
  that hand-over, and is in \<open>clients\<close> still when the fan-out of the message is over, has
  been written that message, once and with success, whether or not it ever sent a message
  itself.
\<close>

theorem registered_before_first_read:
  assumes "run es init = Some s"
  shows "(\<forall>c. handlers s c = None \<longrightarrow>
            c \<notin> dom (clients s) \<and> (\<forall>m. step (ReadOk c m) s = None) \<and> step (ReadErr c) s = None)
     \<and> (\<forall>c pos s'. step (Accept c pos) s = Some s' \<longrightarrow>
            clients s' c = Some True \<and> handlers s' c = Some Reading)
     \<and> (\<forall>c. handlers s c \<noteq> None \<and> handlers s c \<noteq> Some Done \<and> c \<notin> closed s \<longrightarrow> c \<in> dom (clients s))
     \<and> (\<forall>es1 h order es2 s0 c. es = es1 @ Send h order # es2 \<and> run es1 init = Some s0
            \<and> c \<in> dom (clients s0) \<and> finished s (length (dequeued s0)) \<and> c \<in> dom (clients s) \<longrightarrow>
            deliveries s (length (dequeued s0)) c
              = [(length (dequeued s0), c, message s (length (dequeued s0)), WriteOk)])"
proof -
  have i: "inv s" using reachable_inv[OF assms] .
  have a: "inv_active s" using inv_active_run[OF inv_active_init assms] .
  have 1: "c \<notin> dom (clients s) \<and> (\<forall>m. step (ReadOk c m) s = None) \<and> step (ReadErr c) s = None"
    if "handlers s c = None" for c
    using that i by (auto simp: inv_def inv_known_def ws_read_ok_def ws_read_err_def)
  have 2: "clients s' c = Some True \<and> handlers s' c = Some Reading"
    if "step (Accept c pos) s = Some s'" for c pos s'
    using that by (auto simp: ws_accept_def split: if_splits)
  have 3: "c \<in> dom (clients s)" if "handlers s c \<noteq> None \<and> handlers s c \<noteq> Some Done \<and> c \<notin> closed s" for c
    using that a unfolding inv_active_def by blast
  have 4: "deliveries s (length (dequeued s0)) c
              = [(length (dequeued s0), c, message s (length (dequeued s0)), WriteOk)]"
    if h: "es = es1 @ Send h order # es2 \<and> run es1 init = Some s0
            \<and> c \<in> dom (clients s0) \<and> finished s (length (dequeued s0)) \<and> c \<in> dom (clients s)"
    for es1 h order es2 s0 c
  proof -
    from assms h have "run (es1 @ Send h order # es2) init = Some s" by simp
    with h obtain s1 where s1: "step (Send h order) s0 = Some s1" "run es2 s1 = Some s"
      by (auto simp: run_append split: option.splits)
    from delivered_after_enqueue[OF _ s1(1) s1(2) refl] h show ?thesis by blast
  qed
  show ?thesis using 1 2 3 4 by blast
qed

theorem registered_before_first_read_witness:
  "run two_messages init \<noteq> None
   \<and> handlers (the (run two_messages init)) 3 = None
   \<and> step (ReadOk 3 alice_hi) (the (run two_messages init)) = None
   \<and> step (Accept 3 None) (the (run two_messages init)) \<noteq> None
   \<and> clients (the (step (Accept 3 None) (the (run two_messages init)))) 3 = Some True
   \<and> handlers (the (step (Accept 3 None) (the (run two_messages init)))) 3 = Some Reading
   \<and> decoded 2 two_messages = []
   \<and> two_messages = [Accept 1 None, Accept 2 None, ReadOk 1 alice_hi] @ Send 1 [2, 1]
         # (fan_out [WriteOk, WriteOk] @ [ReadOk 1 bob_hello, Send 1 [2, 1]] @ fan_out [WriteOk, WriteOk])
   \<and> run [Accept 1 None, Accept 2 None, ReadOk 1 alice_hi] init \<noteq> None
   \<and> 2 \<in> dom (clients (the (run [Accept 1 None, Accept 2 None, ReadOk 1 alice_hi] init)))
   \<and> length (dequeued (the (run [Accept 1 None, Accept 2 None, ReadOk 1 alice_hi] init))) = 0
   \<and> finished (the (run two_messages init)) 0
   \<and> 2 \<in> dom (clients (the (run two_messages init)))
   \<and> deliveries (the (run two_messages init)) 0 2 = [(0, 2, alice_hi, WriteOk)]"
proof -
  define s where "s = the (run two_messages init)"
  define s' where "s' = the (step (Accept 3 None) s)"
  define es1 where "es1 = [Accept 1 None, Accept 2 None, ReadOk 1 alice_hi]"
  define es2 where "es2 = fan_out [WriteOk, WriteOk] @ [ReadOk 1 bob_hello, Send 1 [2, 1]] @ fan_out [WriteOk, WriteOk]"
  define s0 where "s0 = the (run es1 init)"
  have "run two_messages init \<noteq> None" by (simp add: two_messages_def stmt_defs)
  then have r: "run two_messages init = Some s" by (auto simp: s_def)
  have "run es1 init \<noteq> None" by (simp add: es1_def stmt_defs)
  then have r0: "run es1 init = Some s0" by (auto simp: s0_def)
  have sp: "two_messages = es1 @ Send 1 [2, 1] # es2" by (simp add: two_messages_def es1_def es2_def)
  have h0: "2 \<in> dom (clients s0)" "length (dequeued s0) = 0"
    by (simp_all add: s0_def es1_def stmt_defs)
  have h: "handlers s 3 = None" "decoded 2 two_messages = []" "finished s 0"
    "2 \<in> dom (clients s)" "message s 0 = alice_hi"
    unfolding s_def by (simp_all add: two_messages_def stmt_defs finished_def obs_defs)
  have "step (Accept 3 None) s \<noteq> None" using h(1) by (simp add: ws_accept_def dom_def)
  then have a: "step (Accept 3 None) s = Some s'" by (auto simp: s'_def)
  note t = registered_before_first_read[OF r]
  from t h(1) have 1: "step (ReadOk 3 alice_hi) s = None" by blast
  from t a have 2: "clients s' 3 = Some True" "handlers s' 3 = Some Reading" by blast+
  from t have "two_messages = es1 @ Send 1 [2, 1] # es2 \<and> run es1 init = Some s0
            \<and> 2 \<in> dom (clients s0) \<and> finished s (length (dequeued s0)) \<and> 2 \<in> dom (clients s) \<longrightarrow>
            deliveries s (length (dequeued s0)) 2
              = [(length (dequeued s0), 2, message s (length (dequeued s0)), WriteOk)]"
    by blast
  with sp r0 h0 h(3,4,5) have 3: "deliveries s 0 2 = [(0, 2, alice_hi, WriteOk)]" by simp
  show ?thesis
    unfolding s_def[symmetric] s'_def[symmetric] es1_def[symmetric] es2_def[symmetric] s0_def[symmetric]
    using r r0 sp h0 h a 1 2 3 by simp
qed

text \<open>
  Against C10 as stated (every message enqueued after the registration and before the
  removal is received). In both schedules connection 2 is in \<open>clients\<close> when the message
  is dequeued and is removed afterwards. In the first its handler fails to read while
  connection 1 is being written: the \<^verbatim>\<open>range\<close> never produces 2 and nothing is written
  to it. In the second the write to 2 fails: it does not receive the message either.
\<close>

theorem receives_every_message_counterexample:
  "run leaving_peer init \<noteq> None
   \<and> dequeued (the (run leaving_peer init)) = [(1, alice_hi, [1, 2])]
   \<and> finished (the (run leaving_peer init)) 0
   \<and> written_to (the (run leaving_peer init)) 2 = []
   \<and> closed (the (run leaving_peer init)) = {2}
   \<and> run broken_peer init \<noteq> None
   \<and> dequeued (the (run broken_peer init)) = [(1, alice_hi, [2, 1])]
   \<and> finished (the (run broken_peer init)) 0
   \<and> written_to (the (run broken_peer init)) 2 = [(0, 2, alice_hi, WriteErr)]
   \<and> closed (the (run broken_peer init)) = {2}"
  by (simp add: leaving_peer_def broken_peer_def stmt_defs finished_def written_to_def target_def)

text \<open>
  C5, as the code has it. \<open>clients\<close> is a plain map and no lock is taken around any
  operation on it, so nothing serialises them. In every state, whatever the other goroutines are
  in the middle of: a handler that has not started can enter its insert, a handler in its
  read loop can enter its delete, \<^verbatim>\<open>handleMessages\<close> can enter its \<^verbatim>\<open>range\<close> and, inside
  the range, a delete; and the others stay inside what they were inside. While a range
  is in progress a handler can carry out a whole insert or a whole delete, so that
  \<open>clients\<close> gains or loses a key under the iteration. And the handlers of any number of
  connections can all be inside their inserts at once.
\<close>

theorem registry_operations_overlap:
  "(h_at s c = None \<longrightarrow>
      (\<exists>s'. access_step (Enter (Handler c) (Insert c)) s = Some s'
         \<and> inside s' (Handler c) = [Insert c] \<and> (\<forall>t. t \<noteq> Handler c \<longrightarrow> inside s' t = inside s t)))
   \<and> (h_at s c = Some Registered \<longrightarrow>
      (\<exists>s'. access_step (Enter (Handler c) (Delete c)) s = Some s'
         \<and> inside s' (Handler c) = [Delete c] \<and> (\<forall>t. t \<noteq> Handler c \<longrightarrow> inside s' t = inside s t)))
   \<and> (l_at s = Waiting \<longrightarrow>
      (\<exists>s'. access_step (Enter FanOut Iterate) s = Some s'
         \<and> inside s' FanOut = [Iterate] \<and> (\<forall>t. t \<noteq> FanOut \<longrightarrow> inside s' t = inside s t)))
   \<and> (l_at s = InRange \<longrightarrow>
      (\<exists>s'. access_step (Enter FanOut (Delete k)) s = Some s'
         \<and> inside s' FanOut = [Iterate, Delete k] \<and> (\<forall>t. t \<noteq> FanOut \<longrightarrow> inside s' t = inside s t)))
   \<and> (l_at s = InRange \<and> h_at s c = None \<longrightarrow>
      (\<exists>s'. access_run [Enter (Handler c) (Insert c), Leave (Handler c) (Insert c)] s = Some s'
         \<and> inside s' FanOut = [Iterate] \<and> dom (reg s') = insert c (dom (reg s))))
   \<and> (l_at s = InRange \<and> h_at s c = Some Registered \<longrightarrow>
      (\<exists>s'. access_run [Enter (Handler c) (Delete c), Leave (Handler c) (Delete c)] s = Some s'
         \<and> inside s' FanOut = [Iterate] \<and> dom (reg s') = dom (reg s) - {c}))
   \<and> (distinct cs \<longrightarrow>
      (\<exists>s'. access_run (all_insert cs) idle = Some s'
         \<and> (\<forall>x \<in> set cs. inside s' (Handler x) = [Insert x])))"
proof -
  have other: "inside (s\<lparr>h_at := (h_at s)(c \<mapsto> v)\<rparr>) t = inside s t" if "t \<noteq> Handler c" for t v
    using that by (cases t) auto
  have other': "inside (s\<lparr>l_at := v\<rparr>) t = inside s t" if "t \<noteq> FanOut" for t v
    using that by (cases t) auto
  have 1: "h_at s c = None \<longrightarrow>
      (\<exists>s'. access_step (Enter (Handler c) (Insert c)) s = Some s'
         \<and> inside s' (Handler c) = [Insert c] \<and> (\<forall>t. t \<noteq> Handler c \<longrightarrow> inside s' t = inside s t))"
    using other by simp
  have 2: "h_at s c = Some Registered \<longrightarrow>
      (\<exists>s'. access_step (Enter (Handler c) (Delete c)) s = Some s'
         \<and> inside s' (Handler c) = [Delete c] \<and> (\<forall>t. t \<noteq> Handler c \<longrightarrow> inside s' t = inside s t))"
    using other by simp
  have 3: "l_at s = Waiting \<longrightarrow>
      (\<exists>s'. access_step (Enter FanOut Iterate) s = Some s'
         \<and> inside s' FanOut = [Iterate] \<and> (\<forall>t. t \<noteq> FanOut \<longrightarrow> inside s' t = inside s t))"
    using other' by simp
  have 4: "l_at s = InRange \<longrightarrow>
      (\<exists>s'. access_step (Enter FanOut (Delete k)) s = Some s'
         \<and> inside s' FanOut = [Iterate, Delete k] \<and> (\<forall>t. t \<noteq> FanOut \<longrightarrow> inside s' t = inside s t))"
    using other' by simp
  have 5: "l_at s = InRange \<and> h_at s c = None \<longrightarrow>
      (\<exists>s'. access_run [Enter (Handler c) (Insert c), Leave (Handler c) (Insert c)] s = Some s'
         \<and> inside s' FanOut = [Iterate] \<and> dom (reg s') = insert c (dom (reg s)))"
    by simp
  have 6: "l_at s = InRange \<and> h_at s c = Some Registered \<longrightarrow>
      (\<exists>s'. access_run [Enter (Handler c) (Delete c), Leave (Handler c) (Delete c)] s = Some s'
         \<and> inside s' FanOut = [Iterate] \<and> dom (reg s') = dom (reg s) - {c})"
    by (simp add: delete_def)
  have 7: "distinct cs \<longrightarrow>
      (\<exists>s'. access_run (all_insert cs) idle = Some s'
         \<and> (\<forall>x \<in> set cs. inside s' (Handler x) = [Insert x]))"
  proof
    assume d: "distinct cs"
    have "\<forall>c \<in> set cs. h_at idle c = None" by (simp add: idle_def)
    from all_inserting[OF d this] obtain s' where
      "access_run (all_insert cs) idle = Some s'"
      "\<forall>c. h_at s' c = (if c \<in> set cs then Some Inserting else h_at idle c)" by blast
    then show "\<exists>s'. access_run (all_insert cs) idle = Some s'
         \<and> (\<forall>x \<in> set cs. inside s' (Handler x) = [Insert x])" by auto
  qed
  show ?thesis using 1 2 3 4 5 6 7 by blast
qed

theorem registry_operations_overlap_witness:
  "h_at (the (access_run [Enter (Handler 1) (Insert 1), Leave (Handler 1) (Insert 1), Enter FanOut Iterate,
                          Enter (Handler 2) (Insert 2)] idle)) 3 = None
   \<and> h_at (the (access_run [Enter (Handler 1) (Insert 1), Leave (Handler 1) (Insert 1), Enter FanOut Iterate,
                          Enter (Handler 2) (Insert 2)] idle)) 1 = Some Registered
   \<and> l_at (the (access_run [Enter (Handler 1) (Insert 1), Leave (Handler 1) (Insert 1), Enter FanOut Iterate,
                          Enter (Handler 2) (Insert 2)] idle)) = InRange
   \<and> inside (the (access_run [Enter (Handler 1) (Insert 1), Leave (Handler 1) (Insert 1), Enter FanOut Iterate,
                          Enter (Handler 2) (Insert 2)] idle)) (Handler 2) = [Insert 2]
   \<and> inside (the (access_run [Enter (Handler 1) (Insert 1), Leave (Handler 1) (Insert 1), Enter FanOut Iterate,
                          Enter (Handler 2) (Insert 2)] idle)) FanOut = [Iterate]
   \<and> (\<exists>s'. access_step (Enter (Handler 3) (Insert 3))
          (the (access_run [Enter (Handler 1) (Insert 1), Leave (Handler 1) (Insert 1), Enter FanOut Iterate,
                          Enter (Handler 2) (Insert 2)] idle)) = Some s'
        \<and> inside s' (Handler 3) = [Insert 3] \<and> inside s' (Handler 2) = [Insert 2]
        \<and> inside s' FanOut = [Iterate])
   \<and> (\<exists>s'. access_step (Enter (Handler 1) (Delete 1))
          (the (access_run [Enter (Handler 1) (Insert 1), Leave (Handler 1) (Insert 1), Enter FanOut Iterate,
                          Enter (Handler 2) (Insert 2)] idle)) = Some s'
        \<and> inside s' (Handler 1) = [Delete 1] \<and> inside s' (Handler 2) = [Insert 2]
        \<and> inside s' FanOut = [Iterate])
   \<and> (\<exists>s'. access_step (Enter FanOut (Delete 1))
          (the (access_run [Enter (Handler 1) (Insert 1), Leave (Handler 1) (Insert 1), Enter FanOut Iterate,
                          Enter (Handler 2) (Insert 2)] idle)) = Some s'
        \<and> inside s' FanOut = [Iterate, Delete 1] \<and> inside s' (Handler 2) = [Insert 2])
   \<and> distinct [1::conn, 2, 3]
   \<and> (\<exists>s'. access_run (all_insert [1, 2, 3]) idle = Some s'
        \<and> inside s' (Handler 1) = [Insert 1] \<and> inside s' (Handler 2) = [Insert 2]
        \<and> inside s' (Handler 3) = [Insert 3])"
proof -
  define s where "s = the (access_run [Enter (Handler 1) (Insert 1), Leave (Handler 1) (Insert 1),
                          Enter FanOut Iterate, Enter (Handler 2) (Insert 2)] idle)"
  have h: "h_at s 3 = None" "h_at s 1 = Some Registered" "l_at s = InRange"
    "inside s (Handler 2) = [Insert 2]" "inside s FanOut = [Iterate]"
    by (simp_all add: s_def idle_def)
  have ne: "Handler 2 \<noteq> Handler 3" "FanOut \<noteq> Handler 3" "Handler 2 \<noteq> Handler 1" "FanOut \<noteq> Handler 1"
    "Handler 2 \<noteq> FanOut" by simp_all
  have d: "distinct [1::conn, 2, 3]" by simp
  note t3 = registry_operations_overlap[where s=s and c=3 and k=1 and cs="[1, 2, 3]"]
  note t1 = registry_operations_overlap[where s=s and c=1 and k=1 and cs="[1, 2, 3]"]
  note c1 = t3[THEN conjunct1]
  note c2 = t1[THEN conjunct2, THEN conjunct1]
  note c4 = t1[THEN conjunct2, THEN conjunct2, THEN conjunct2, THEN conjunct1]
  note c7 = t1[THEN conjunct2, THEN conjunct2, THEN conjunct2, THEN conjunct2, THEN conjunct2,
               THEN conjunct2]
  from c1 h(1) obtain a where a: "access_step (Enter (Handler 3) (Insert 3)) s = Some a"
    "inside a (Handler 3) = [Insert 3]" "\<forall>t. t \<noteq> Handler 3 \<longrightarrow> inside a t = inside s t" by blast
  have a': "inside a (Handler 2) = [Insert 2]" "inside a FanOut = [Iterate]"
    using a(3) ne(1,2) h(4,5) by metis+
  have E1: "\<exists>s'. access_step (Enter (Handler 3) (Insert 3)) s = Some s'
        \<and> inside s' (Handler 3) = [Insert 3] \<and> inside s' (Handler 2) = [Insert 2]
        \<and> inside s' FanOut = [Iterate]"
    using a(1,2) a' by blast
  from c2 h(2) obtain b where b: "access_step (Enter (Handler 1) (Delete 1)) s = Some b"
    "inside b (Handler 1) = [Delete 1]" "\<forall>t. t \<noteq> Handler 1 \<longrightarrow> inside b t = inside s t" by blast
  have b': "inside b (Handler 2) = [Insert 2]" "inside b FanOut = [Iterate]"
    using b(3) ne(3,4) h(4,5) by metis+
  have E2: "\<exists>s'. access_step (Enter (Handler 1) (Delete 1)) s = Some s'
        \<and> inside s' (Handler 1) = [Delete 1] \<and> inside s' (Handler 2) = [Insert 2]
        \<and> inside s' FanOut = [Iterate]"
    using b(1,2) b' by blast
  from c4 h(3) obtain e where e: "access_step (Enter FanOut (Delete 1)) s = Some e"
    "inside e FanOut = [Iterate, Delete 1]" "\<forall>t. t \<noteq> FanOut \<longrightarrow> inside e t = inside s t" by blast
  have e': "inside e (Handler 2) = [Insert 2]"
    using e(3) ne(5) h(4) by metis
  have E3: "\<exists>s'. access_step (Enter FanOut (Delete 1)) s = Some s'
        \<and> inside s' FanOut = [Iterate, Delete 1] \<and> inside s' (Handler 2) = [Insert 2]"
    using e(1,2) e' by blast
  from c7 d obtain g where g: "access_run (all_insert [1, 2, 3]) idle = Some g"
    "\<forall>x \<in> set [1, 2, 3]. inside g (Handler x) = [Insert x]" by blast
  from g(2) have g': "inside g (Handler 1) = [Insert 1]" "inside g (Handler 2) = [Insert 2]"
    "inside g (Handler 3) = [Insert 3]" by simp_all
  have E4: "\<exists>s'. access_run (all_insert [1, 2, 3]) idle = Some s'
        \<and> inside s' (Handler 1) = [Insert 1] \<and> inside s' (Handler 2) = [Insert 2]
        \<and> inside s' (Handler 3) = [Insert 3]"
    using g(1) g' by blast
  show ?thesis unfolding s_def[symmetric]
    by (intro conjI h d E1 E2 E3 E4)
qed

text \<open>
  Against C5 as stated: two handlers are inside their inserts together; two handlers are
  inside their deletes together; \<^verbatim>\<open>handleMessages\<close> and a handler are inside a delete of
  the same key together, within the range; and a range that began with the keys 1 and 2 is
  still in progress when the keys have become 2 and 3.
\<close>

theorem registry_serialised_counterexample:
  "inside (the (access_run [Enter (Handler 1) (Insert 1), Enter (Handler 2) (Insert 2)] idle)) (Handler 1)
      = [Insert 1]
   \<and> inside (the (access_run [Enter (Handler 1) (Insert 1), Enter (Handler 2) (Insert 2)] idle)) (Handler 2)
      = [Insert 2]
   \<and> inside (the (access_run [Enter (Handler 1) (Insert 1), Leave (Handler 1) (Insert 1),
         Enter (Handler 2) (Insert 2), Leave (Handler 2) (Insert 2),
         Enter (Handler 1) (Delete 1), Enter (Handler 2) (Delete 2)] idle)) (Handler 1) = [Delete 1]
   \<and> inside (the (access_run [Enter (Handler 1) (Insert 1), Leave (Handler 1) (Insert 1),
         Enter (Handler 2) (Insert 2), Leave (Handler 2) (Insert 2),
         Enter (Handler 1) (Delete 1), Enter (Handler 2) (Delete 2)] idle)) (Handler 2) = [Delete 2]
   \<and> inside (the (access_run [Enter (Handler 1) (Insert 1), Leave (Handler 1) (Insert 1),
         Enter FanOut Iterate, Enter FanOut (Delete 1), Enter (Handler 1) (Delete 1)] idle)) FanOut
      = [Iterate, Delete 1]
   \<and> inside (the (access_run [Enter (Handler 1) (Insert 1), Leave (Handler 1) (Insert 1),
         Enter FanOut Iterate, Enter FanOut (Delete 1), Enter (Handler 1) (Delete 1)] idle)) (Handler 1)
      = [Delete 1]
   \<and> dom (reg (the (access_run [Enter (Handler 1) (Insert 1), Leave (Handler 1) (Insert 1),
         Enter (Handler 2) (Insert 2), Leave (Handler 2) (Insert 2), Enter FanOut Iterate] idle))) = {2, 1}
   \<and> inside (the (access_run [Enter (Handler 1) (Insert 1), Leave (Handler 1) (Insert 1),
         Enter (Handler 2) (Insert 2), Leave (Handler 2) (Insert 2), Enter FanOut Iterate,
         Enter (Handler 1) (Delete 1), Leave (Handler 1) (Delete 1),
         Enter (Handler 3) (Insert 3), Leave (Handler 3) (Insert 3)] idle)) FanOut = [Iterate]
   \<and> dom (reg (the (access_run [Enter (Handler 1) (Insert 1), Leave (Handler 1) (Insert 1),
         Enter (Handler 2) (Insert 2), Leave (Handler 2) (Insert 2), Enter FanOut Iterate,
         Enter (Handler 1) (Delete 1), Leave (Handler 1) (Delete 1),
         Enter (Handler 3) (Insert 3), Leave (Handler 3) (Insert 3)] idle))) = {3, 2}"
  by (simp add: idle_def delete_def)

end
